theory Spec2Isabelle
  imports Main
begin

section \<open>Python values used by setup.py\<close>

text \<open>
  Python strings are modelled as \<open>string\<close> (a list of 8-bit characters), which is exact for
  the ASCII text that setup.py handles. Exceptions are values of the type \<open>error\<close>; a
  computation that may raise returns \<open>error + 'a\<close>, with \<open>Inl\<close> for the exception.
\<close>

datatype error =
    RuntimeError string
  | AttributeError
  | TypeError
  | ImportError
  | OSError
  | UnicodeDecodeError
  | OtherError string

datatype pyval = PInt int | PStr string

text \<open>\<open>a < b\<close> on \<open>str\<close>: lexicographic on the code points, a proper prefix is smaller.\<close>

fun str_lt :: "string \<Rightarrow> string \<Rightarrow> bool" where
  "str_lt [] [] = False"
| "str_lt [] (y # ys) = True"
| "str_lt (x # xs) [] = False"
| "str_lt (x # xs) (y # ys) =
     (if x = y then str_lt xs ys else (of_char x :: nat) < of_char y)"

text \<open>\<open>a < b\<close> on two tuple elements: \<open>int\<close> with \<open>int\<close>, \<open>str\<close> with \<open>str\<close>; a mixed
  comparison raises \<open>TypeError\<close>.\<close>

fun pyval_lt :: "pyval \<Rightarrow> pyval \<Rightarrow> error + bool" where
  "pyval_lt (PInt a) (PInt b) = Inr (a < b)"
| "pyval_lt (PStr a) (PStr b) = Inr (str_lt a b)"
| "pyval_lt _ _ = Inl TypeError"

text \<open>\<open>a < b\<close> on tuples: the first position where the elements are not equal decides; when
  there is none, the shorter tuple is the smaller one.\<close>

fun tuple_lt :: "pyval list \<Rightarrow> pyval list \<Rightarrow> error + bool" where
  "tuple_lt [] [] = Inr False"
| "tuple_lt [] (y # ys) = Inr True"
| "tuple_lt (x # xs) [] = Inr False"
| "tuple_lt (x # xs) (y # ys) = (if x = y then tuple_lt xs ys else pyval_lt x y)"

text \<open>\<open>str.lower()\<close> on ASCII text.\<close>

definition lower_char :: "char \<Rightarrow> char" where
  "lower_char c =
     (case map_of (zip ''ABCDEFGHIJKLMNOPQRSTUVWXYZ'' ''abcdefghijklmnopqrstuvwxyz'') c of
        Some d \<Rightarrow> d
      | None \<Rightarrow> c)"

definition lower :: "string \<Rightarrow> string" where
  "lower s = map lower_char s"

text \<open>\<open>s.startswith(p)\<close> and \<open>s.endswith(p)\<close>.\<close>

definition startswith :: "string \<Rightarrow> string \<Rightarrow> bool" where
  "startswith s p \<longleftrightarrow> take (length p) s = p"

definition endswith :: "string \<Rightarrow> string \<Rightarrow> bool" where
  "endswith s p \<longleftrightarrow> length p \<le> length s \<and> drop (length s - length p) s = p"

text \<open>\<open>s.partition(c)\<close> for a one-character separator: the text before the first \<open>c\<close>, the
  separator, and the text after it; \<open>(s, '', '')\<close> when \<open>c\<close> does not occur.\<close>

definition partition_str :: "string \<Rightarrow> char \<Rightarrow> string \<times> string \<times> string" where
  "partition_str s c =
     (if c \<in> set s then (takeWhile (\<lambda>x. x \<noteq> c) s, [c], tl (dropWhile (\<lambda>x. x \<noteq> c) s))
      else (s, [], []))"

text \<open>\<open>s.split(c)\<close> for a one-character separator: never an empty list.\<close>

fun split_str :: "string \<Rightarrow> char \<Rightarrow> string list" where
  "split_str [] c = [[]]"
| "split_str (x # xs) c =
     (if x = c then [] # split_str xs c
      else (case split_str xs c of
              w # ws \<Rightarrow> (x # w) # ws
            | [] \<Rightarrow> [[x]]))"

text \<open>\<open>s.strip(chars)\<close>.\<close>

definition strip_str :: "string \<Rightarrow> string \<Rightarrow> string" where
  "strip_str s chars =
     rev (dropWhile (\<lambda>x. x \<in> set chars) (rev (dropWhile (\<lambda>x. x \<in> set chars) s)))"

text \<open>\<open>os.path.splitext(p)\<close> on POSIX: the extension starts at the last dot of the last path
  component, unless that component has only dots before it.\<close>

definition splitext :: "string \<Rightarrow> string \<times> string" where
  "splitext p =
     (let ext = rev (takeWhile (\<lambda>x. x \<noteq> CHR ''.'' \<and> x \<noteq> CHR ''/'') (rev p));
          stem = take (length p - length ext) p;
          base = rev (takeWhile (\<lambda>x. x \<noteq> CHR ''/'') (rev stem))
      in if stem \<noteq> [] \<and> last stem = CHR ''.'' \<and> (\<exists>x \<in> set (butlast base). x \<noteq> CHR ''.'')
         then (butlast stem, CHR ''.'' # ext)
         else (p, []))"


section \<open>setup.py: the module body\<close>

record version_info =
  major :: int
  minor :: int
  micro :: int
  releaselevel :: string
  serial :: int

definition as_tuple :: "version_info \<Rightarrow> pyval list" where
  "as_tuple vi = [PInt (major vi), PInt (minor vi), PInt (micro vi),
                  PStr (releaselevel vi), PInt (serial vi)]"

text \<open>
  What the module body reads from its surroundings: the interpreter's \<open>sys.version_info\<close>,
  whether \<open>setuptools\<close> can be imported, and the two files it opens (\<open>None\<close> when \<open>open\<close>
  fails). Reading text decodes it: \<open>readme\<close> is what \<open>f.read()\<close> meets, and \<open>init_py\<close> is what
  the iteration over the lines of \<open>httptools/__init__.py\<close> meets in order, each time the text
  or bytes that cannot be decoded.
\<close>

datatype 'a reading = Undecodable | Decoded 'a

record script_env =
  sys_version_info :: version_info
  setuptools_importable :: bool
  readme :: "string reading option"
  init_py :: "string reading list option"

text \<open>Lines 8 to 10: \<open>if vi < (3, 5): raise RuntimeError(...)\<close>.\<close>

definition version_guard :: "version_info \<Rightarrow> error + unit" where
  "version_guard vi =
     (case tuple_lt (as_tuple vi) [PInt 3, PInt 5] of
        Inl e \<Rightarrow> Inl e
      | Inr True \<Rightarrow> Inl (RuntimeError ''httptools require Python 3.5 or greater'')
      | Inr False \<Rightarrow> Inr ())"

text \<open>Lines 126 to 134: the first line that starts with \<open>__version__ =\<close> gives the version;
  the \<open>else\<close> of the \<open>for\<close> raises when there is none; the iteration raises where the file
  cannot be decoded.\<close>

fun read_version :: "string reading list \<Rightarrow> error + string" where
  "read_version [] = Inl (RuntimeError ''unable to read the version from httptools/__init__.py'')"
| "read_version (Undecodable # rest) = Inl UnicodeDecodeError"
| "read_version (Decoded line # rest) =
     (if startswith line ''__version__ =''
      then (case partition_str line (CHR ''='') of
              (_, _, version) \<Rightarrow> Inr (strip_str version [CHR '' '', CHR 0x0A, CHR 0x27, CHR 0x22]))
      else read_version rest)"

text \<open>The arguments of the call of \<open>setup\<close> that depend on the surroundings.\<close>

record setup_call =
  version_arg :: string
  long_description_arg :: string

text \<open>Lines 12 to 173, everything after the guard: the class statement has no effect of its
  own, then the two files are read and \<open>setup\<close> is called.\<close>

definition script_body :: "script_env \<Rightarrow> error + setup_call" where
  "script_body env =
     (case readme env of
        None \<Rightarrow> Inl OSError
      | Some Undecodable \<Rightarrow> Inl UnicodeDecodeError
      | Some (Decoded long_description) \<Rightarrow>
          (case init_py env of
             None \<Rightarrow> Inl OSError
           | Some ls \<Rightarrow>
               (case read_version ls of
                  Inl e \<Rightarrow> Inl e
                | Inr v \<Rightarrow> Inr \<lparr>version_arg = v, long_description_arg = long_description\<rparr>)))"

text \<open>The whole module: \<open>Inr\<close> means that \<open>setup\<close> was called, which is the only place where
  a setuptools command can run; \<open>Inl\<close> is the exception that ended the script before.\<close>

definition run_setup_py :: "script_env \<Rightarrow> error + setup_call" where
  "run_setup_py env =
     (if \<not> setuptools_importable env then Inl ImportError
      else (case version_guard (sys_version_info env) of
              Inl e \<Rightarrow> Inl e
            | Inr _ \<Rightarrow> script_body env))"


section \<open>setup.py: the class \<open>httptools_build_ext\<close>\<close>

record extension =
  ext_name :: string
  sources :: "string list"

text \<open>
  The command object. \<open>initialized\<close> is the attribute \<open>_initialized\<close>, \<open>None\<close> while the
  object does not have it; \<open>ext_modules\<close> is \<open>self.distribution.ext_modules\<close>; \<open>inherited\<close>
  stands for the attributes that the base class \<open>build_ext\<close> keeps on the same object.
\<close>

record 'b command =
  initialized :: "bool option"
  use_system_http_parser :: bool
  cython_always :: bool
  cython_annotate :: "bool option"
  cython_directives :: "string option"
  ext_modules :: "extension list"
  inherited :: 'b

text \<open>A value stored under a Cython directive, and a value stored in \<open>cfiles\<close> (the time stamp
  of \<open>os.path.getmtime\<close>, whose type \<open>'t\<close> the code never inspects, or the literal \<open>0\<close>).\<close>

datatype dval = DBool bool | DStr string

datatype 't stamp = Mtime 't | Zero

text \<open>
  What the methods use from outside the class: the file system (a path exists when it is in the
  domain of \<open>fs\<close>, and is mapped to its modification time), \<open>Cython.__version__\<close> (\<open>None\<close>
  when \<open>import Cython\<close> raises \<open>ImportError\<close>), \<open>cythonize\<close>, and the two methods of the
  base class, which may change any attribute of the object.
\<close>

record ('b, 't) build_env =
  fs :: "string \<rightharpoonup> 't"
  cython_version :: "string option"
  cythonize :: "extension list \<Rightarrow> (string \<rightharpoonup> dval) \<Rightarrow> bool option \<Rightarrow> error + extension list"
  super_initialize_options :: "'b command \<Rightarrow> 'b command"
  super_finalize_options :: "'b command \<Rightarrow> error + 'b command"

text \<open>\<open>getattr(self, '_initialized', False)\<close>.\<close>

definition getattr_initialized :: "'b command \<Rightarrow> bool" where
  "getattr_initialized self = (case initialized self of None \<Rightarrow> False | Some b \<Rightarrow> b)"

text \<open>Lines 34 to 45.\<close>

definition initialize_options :: "('b, 't) build_env \<Rightarrow> 'b command \<Rightarrow> 'b command" where
  "initialize_options env self =
     (if getattr_initialized self then self
      else (super_initialize_options env self)
             \<lparr>use_system_http_parser := False, cython_always := False,
              cython_annotate := None, cython_directives := None\<rparr>)"

text \<open>
  Lines 58 to 70, the loop over the sources of one extension. It returns the new source list,
  \<open>cfiles\<close> and \<open>need_cythonize\<close>. The assignment \<open>extension.sources[i] = cfile\<close> writes a
  position that the enumeration has already passed.
\<close>

fun scan_sources ::
  "(string \<rightharpoonup> 't) \<Rightarrow> bool \<Rightarrow> string list \<Rightarrow> (string \<rightharpoonup> 't stamp) \<Rightarrow> bool
     \<Rightarrow> string list \<times> (string \<rightharpoonup> 't stamp) \<times> bool" where
  "scan_sources files always [] cfiles need = ([], cfiles, need)"
| "scan_sources files always (sfile # rest) cfiles need =
     (if endswith sfile ''.pyx'' then
        (let cfile = fst (splitext sfile) @ ''.c'' in
         if files cfile \<noteq> None \<and> \<not> always then
           (case scan_sources files always rest cfiles need of
              (srcs, cf, nd) \<Rightarrow> (cfile # srcs, cf, nd))
         else
           (case scan_sources files always rest
                   (cfiles(cfile \<mapsto> (case files cfile of Some t \<Rightarrow> Mtime t | None \<Rightarrow> Zero))) True of
              (srcs, cf, nd) \<Rightarrow> (sfile # srcs, cf, nd)))
      else
        (case scan_sources files always rest cfiles need of
           (srcs, cf, nd) \<Rightarrow> (sfile # srcs, cf, nd)))"

text \<open>Line 57, the loop over the extensions.\<close>

fun scan_extensions ::
  "(string \<rightharpoonup> 't) \<Rightarrow> bool \<Rightarrow> extension list \<Rightarrow> (string \<rightharpoonup> 't stamp) \<Rightarrow> bool
     \<Rightarrow> extension list \<times> (string \<rightharpoonup> 't stamp) \<times> bool" where
  "scan_extensions files always [] cfiles need = ([], cfiles, need)"
| "scan_extensions files always (ext # rest) cfiles need =
     (case scan_sources files always (sources ext) cfiles need of
        (srcs, cf, nd) \<Rightarrow>
          (case scan_extensions files always rest cf nd of
             (exts, cf', nd') \<Rightarrow> (ext\<lparr>sources := srcs\<rparr> # exts, cf', nd')))"

text \<open>\<open>v.lower()\<close> on a directive's value: a \<open>bool\<close> has no such attribute.\<close>

fun dval_lower :: "dval \<Rightarrow> error + string" where
  "dval_lower (DStr s) = Inr (lower s)"
| "dval_lower (DBool b) = Inl AttributeError"

text \<open>Lines 88 to 94, the body of the loop over the directives: the key and the value to store
  in \<open>directives\<close>. The second \<open>if\<close> reads \<open>v\<close> as the first one left it.\<close>

definition parse_directive :: "string \<Rightarrow> error + string \<times> dval" where
  "parse_directive directive =
     (case partition_str directive (CHR ''='') of
        (k, _, v0) \<Rightarrow>
          (case dval_lower (DStr v0) of
             Inl e \<Rightarrow> Inl e
           | Inr l1 \<Rightarrow>
               (let v1 = (if l1 = ''false'' then DBool False else DStr v0) in
                case dval_lower v1 of
                  Inl e \<Rightarrow> Inl e
                | Inr l2 \<Rightarrow>
                    (let v2 = (if l2 = ''true'' then DBool True else v1) in Inr (k, v2)))))"

text \<open>Line 87, the loop: it stops at the first directive that raises.\<close>

fun parse_directives :: "string list \<Rightarrow> (string \<rightharpoonup> dval) \<Rightarrow> error + (string \<rightharpoonup> dval)" where
  "parse_directives [] directives = Inr directives"
| "parse_directives (directive # rest) directives =
     (case parse_directive directive of
        Inl e \<Rightarrow> Inl e
      | Inr (k, v) \<Rightarrow> parse_directives rest (directives(k \<mapsto> v)))"

text \<open>Lines 85 to 94. \<open>None\<close> and the empty string are false in \<open>if self.cython_directives\<close>.\<close>

definition read_directives :: "string option \<Rightarrow> error + (string \<rightharpoonup> dval)" where
  "read_directives ds =
     (case ds of
        None \<Rightarrow> Inr Map.empty
      | Some s \<Rightarrow> if s = [] then Inr Map.empty
                  else parse_directives (split_str s (CHR '','')) Map.empty)"

text \<open>Lines 73 to 99, the body of \<open>if need_cythonize\<close>.\<close>

definition run_cythonize :: "('b, 't) build_env \<Rightarrow> 'b command \<Rightarrow> error + 'b command" where
  "run_cythonize env self =
     (case cython_version env of
        None \<Rightarrow> Inl (RuntimeError ''please install Cython to compile httptools from source'')
      | Some ver \<Rightarrow>
          if str_lt ver ''0.28''
          then Inl (RuntimeError ''httptools requires Cython version 0.28 or greater'')
          else (case read_directives (cython_directives self) of
                  Inl e \<Rightarrow> Inl e
                | Inr directives \<Rightarrow>
                    (case cythonize env (ext_modules self) directives (cython_annotate self) of
                       Inl e \<Rightarrow> Inl e
                     | Inr exts \<Rightarrow> Inr (self\<lparr>ext_modules := exts\<rparr>))))"

text \<open>Lines 47 to 103. An exception ends the method; the object as the exception leaves it is
  not part of the result.\<close>

definition finalize_options :: "('b, 't) build_env \<Rightarrow> 'b command \<Rightarrow> error + 'b command" where
  "finalize_options env self =
     (if getattr_initialized self then Inr self
      else
        (case scan_extensions (fs env) (cython_always self) (ext_modules self) Map.empty
                (cython_always self) of
           (exts, cfiles, need_cythonize) \<Rightarrow>
             (case (if need_cythonize then run_cythonize env (self\<lparr>ext_modules := exts\<rparr>)
                    else Inr (self\<lparr>ext_modules := exts\<rparr>)) of
                Inl e \<Rightarrow> Inl e
              | Inr self1 \<Rightarrow>
                  (case super_finalize_options env self1 of
                     Inl e \<Rightarrow> Inl e
                   | Inr self2 \<Rightarrow> Inr (self2\<lparr>initialized := Some True\<rparr>)))))"

text \<open>A sequence of later calls of the two methods on one object, each in its own
  surroundings.\<close>

datatype method_call = Initialize | Finalize

fun run_calls ::
  "(('b, 't) build_env \<times> method_call) list \<Rightarrow> 'b command \<Rightarrow> error + 'b command" where
  "run_calls [] self = Inr self"
| "run_calls ((env, Initialize) # rest) self = run_calls rest (initialize_options env self)"
| "run_calls ((env, Finalize) # rest) self =
     (case finalize_options env self of
        Inl e \<Rightarrow> Inl e
      | Inr self' \<Rightarrow> run_calls rest self')"


section \<open>setup.py: names for the statements and example inputs\<close>

definition directive_value :: "string \<Rightarrow> string" where
  "directive_value directive = snd (snd (partition_str directive (CHR ''='')))"

definition directive_key :: "string \<Rightarrow> string" where
  "directive_key directive = fst (partition_str directive (CHR ''=''))"

definition py34 :: script_env where
  "py34 = \<lparr>sys_version_info = \<lparr>major = 3, minor = 4, micro = 10, releaselevel = ''final'', serial = 0\<rparr>,
           setuptools_importable = True, readme = Some (Decoded ''httptools''),
           init_py = Some [Decoded ''__version__ = 0.1.1'']\<rparr>"

definition py35 :: script_env where
  "py35 = py34\<lparr>sys_version_info := \<lparr>major = 3, minor = 5, micro = 0, releaselevel = ''final'', serial = 0\<rparr>\<rparr>"

definition example_env :: "(unit, nat) build_env" where
  "example_env = \<lparr>fs = [''httptools/parser/parser.c'' \<mapsto> 1], cython_version = Some ''0.29.36'',
      cythonize = (\<lambda>exts directives annotate. Inr exts),
      super_initialize_options = (\<lambda>self. self), super_finalize_options = (\<lambda>self. Inr self)\<rparr>"

definition example_command :: "unit command" where
  "example_command = \<lparr>initialized = None, use_system_http_parser = False, cython_always = False,
      cython_annotate = None, cython_directives = None,
      ext_modules = [\<lparr>ext_name = ''httptools.parser.parser'', sources = [''httptools/parser/parser.pyx'']\<rparr>],
      inherited = ()\<rparr>"

definition example_finalized :: "unit command" where
  "example_finalized = example_command\<lparr>initialized := Some True,
      ext_modules := [\<lparr>ext_name = ''httptools.parser.parser'', sources = [''httptools/parser/parser.c'']\<rparr>]\<rparr>"

definition directives_command :: "unit command" where
  "directives_command = \<lparr>initialized = None, use_system_http_parser = False, cython_always = True,
      cython_annotate = None, cython_directives = Some ''language_level=3,boundscheck=False'',
      ext_modules = [\<lparr>ext_name = ''httptools.parser.parser'', sources = [''httptools/parser/parser.pyx'']\<rparr>],
      inherited = ()\<rparr>"


section \<open>The message parser: data model\<close>

text \<open>
  The parser and the URL parser are compiled from \<open>httptools/parser/parser.pyx\<close> and
  \<open>vendor/http-parser\<close>, which setup.py names as the sources of the extension. The
  definitions of this and the following sections are modelled from the specification, sections
  3 to 7. Bytes are values of type \<open>char\<close>, byte slices are of type \<open>string\<close>.
\<close>

datatype parser_kind = Request | Response

datatype parser_state =
    StartLine | HeaderField | HeaderValue | HeadersComplete
  | BodyIdentity | BodyContentLength | BodyChunked
  | ChunkSize | ChunkExtension | ChunkData | ChunkCRLF
  | Trailer | MessageComplete | Error

datatype parse_error =
    InvalidStartLine | InvalidVersion | InvalidHeaderField
  | InvalidContentLength | ConflictingBodyHeaders | InvalidChunkSize
  | LineTooLong | HeaderTooLarge | InvalidPort | CallbackAborted | Paused

datatype http_method = GET | HEAD | POST | PUT | DELETE | CONNECT | OPTIONS | TRACE | PATCH

text \<open>One constructor per callback of section 4.2, with its payload.\<close>

datatype event =
    OnMessageBegin
  | OnMethod http_method
  | OnUrl string
  | OnStatus nat string
  | OnHeader string string
  | OnHeadersComplete
  | OnBody string
  | OnChunkHeader nat
  | OnChunkComplete
  | OnMessageComplete

text \<open>What a callback tells the parser: go on, abort the parse, or pause it.\<close>

datatype reply = Continue | Abort | Pause

record message_context =
  http_major :: nat
  http_minor :: nat
  req_method :: "http_method option"
  status_code :: "nat option"
  chunked :: bool
  content_length_present :: bool
  upgrade :: bool
  keep_alive :: bool
  trailing :: bool
  remaining :: nat

record chunk_context =
  chunk_remaining :: nat
  last_chunk_seen :: bool

text \<open>
  Modelled from the spec: the parser instance of sections 3 and 4.1. \<open>kind\<close> and \<open>sink\<close> are
  given at construction; \<open>max_token\<close> is the configurable bound of section 5 on the token in
  progress; \<open>head_response\<close> is how the embedder tells a response parser that the message
  answers a HEAD request (the spec names the rule, not its input); \<open>failure\<close> is the reason
  held by the state \<open>Error\<close>; \<open>buffer\<close> is the token in progress and \<open>field_name\<close> the name of
  the header whose value is being read.
\<close>

record parser =
  kind :: parser_kind
  sink :: "event \<Rightarrow> reply"
  max_token :: nat
  head_response :: bool
  state :: parser_state
  failure :: "parse_error option"
  paused :: bool
  ctx :: message_context
  chunk :: chunk_context
  buffer :: string
  field_name :: string

definition clear_context :: message_context where
  "clear_context = \<lparr>http_major = 0, http_minor = 0, req_method = None, status_code = None,
     chunked = False, content_length_present = False, upgrade = False, keep_alive = False,
     trailing = False, remaining = 0\<rparr>"

definition clear_chunk :: chunk_context where
  "clear_chunk = \<lparr>chunk_remaining = 0, last_chunk_seen = False\<rparr>"

text \<open>Modelled from the spec: construction (4.1) initialises to \<open>StartLine\<close> and clears the
  message context.\<close>

definition new_parser :: "parser_kind \<Rightarrow> (event \<Rightarrow> reply) \<Rightarrow> nat \<Rightarrow> bool \<Rightarrow> parser" where
  "new_parser k s bound hd_resp =
     \<lparr>kind = k, sink = s, max_token = bound, head_response = hd_resp, state = StartLine,
      failure = None, paused = False, ctx = clear_context, chunk = clear_chunk,
      buffer = [], field_name = []\<rparr>"

text \<open>Modelled from the spec: \<open>reset()\<close> clears the message context and returns to
  \<open>StartLine\<close>; \<open>pause()\<close> and \<open>resume()\<close> set and clear the pause (4.1).\<close>

definition reset :: "parser \<Rightarrow> parser" where
  "reset p = p\<lparr>state := StartLine, failure := None, ctx := clear_context, chunk := clear_chunk,
               buffer := [], field_name := []\<rparr>"

definition pause :: "parser \<Rightarrow> parser" where
  "pause p = p\<lparr>paused := True\<rparr>"

definition resume :: "parser \<Rightarrow> parser" where
  "resume p = p\<lparr>paused := False\<rparr>"

text \<open>The parser enters \<open>Error\<close> with a reason (4.2, 7).\<close>

definition fail :: "parser \<Rightarrow> parse_error \<Rightarrow> parser" where
  "fail p e = p\<lparr>state := Error, failure := Some e\<rparr>"


section \<open>The message parser: the byte scanner\<close>

definition CR :: char where "CR = CHR 0x0D"
definition LF :: char where "LF = CHR 0x0A"
definition SP :: char where "SP = CHR 0x20"
definition HT :: char where "HT = CHR 0x09"

definition is_digit :: "char \<Rightarrow> bool" where
  "is_digit c \<longleftrightarrow> c \<in> set ''0123456789''"

definition is_alpha :: "char \<Rightarrow> bool" where
  "is_alpha c \<longleftrightarrow> c \<in> set ''abcdefghijklmnopqrstuvwxyzABCDEFGHIJKLMNOPQRSTUVWXYZ''"

definition is_hex :: "char \<Rightarrow> bool" where
  "is_hex c \<longleftrightarrow> c \<in> set ''0123456789abcdefABCDEF''"

text \<open>The characters of a header name: the token characters of HTTP/1.1.\<close>

definition is_tchar :: "char \<Rightarrow> bool" where
  "is_tchar c \<longleftrightarrow> is_alpha c \<or> is_digit c \<or> c \<in> set ''!#$%&*+-.^_|~''
                 \<or> c = CHR 0x27 \<or> c = CHR 0x60"

definition digit_value :: "char \<Rightarrow> nat" where
  "digit_value c =
     (case map_of (zip ''0123456789abcdefABCDEF''
                       [0, 1, 2, 3, 4, 5, 6, 7, 8, 9, 10, 11, 12, 13, 14, 15, 10, 11, 12, 13, 14, 15]) c of
        Some v \<Rightarrow> v
      | None \<Rightarrow> 0)"

definition decimal_value :: "string \<Rightarrow> nat" where
  "decimal_value s = foldl (\<lambda>a c. 10 * a + digit_value c) 0 s"

definition hex_value :: "string \<Rightarrow> nat" where
  "hex_value s = foldl (\<lambda>a c. 16 * a + digit_value c) 0 s"

text \<open>A non-negative integer in decimal digits.\<close>

definition parse_nat :: "string \<Rightarrow> nat option" where
  "parse_nat s = (if s \<noteq> [] \<and> (\<forall>c \<in> set s. is_digit c) then Some (decimal_value s) else None)"

text \<open>Optional white space around a header value is not part of the value.\<close>

definition trim :: "string \<Rightarrow> string" where
  "trim s = strip_str s [SP, HT]"

definition parse_method :: "string \<Rightarrow> http_method option" where
  "parse_method s =
     map_of [(''GET'', GET), (''HEAD'', HEAD), (''POST'', POST), (''PUT'', PUT),
             (''DELETE'', DELETE), (''CONNECT'', CONNECT), (''OPTIONS'', OPTIONS),
             (''TRACE'', TRACE), (''PATCH'', PATCH)] s"

text \<open>The version token \<open>HTTP/M.m\<close>.\<close>

definition parse_version :: "string \<Rightarrow> (nat \<times> nat) option" where
  "parse_version s =
     (if length s = 8 \<and> take 5 s = ''HTTP/'' \<and> is_digit (s ! 5) \<and> s ! 6 = CHR ''.''
         \<and> is_digit (s ! 7)
      then Some (digit_value (s ! 5), digit_value (s ! 7)) else None)"

text \<open>Modelled from the spec: the request line \<open>METHOD SP TARGET SP HTTP/M.m\<close> (4.1).\<close>

definition parse_request_line :: "string \<Rightarrow> (http_method \<times> string \<times> nat \<times> nat) option" where
  "parse_request_line line =
     (case split_str line SP of
        [m, target, v] \<Rightarrow>
          (case (parse_method m, parse_version v) of
             (Some mth, Some ver) \<Rightarrow> if target = [] then None else Some (mth, target, ver)
           | _ \<Rightarrow> None)
      | _ \<Rightarrow> None)"

text \<open>Modelled from the spec: the status line \<open>HTTP/M.m SP STATUS SP REASON\<close>, the status a
  3-digit number (4.1).\<close>

definition parse_status_line :: "string \<Rightarrow> ((nat \<times> nat) \<times> nat \<times> string) option" where
  "parse_status_line line =
     (case partition_str line SP of
        (v, sep1, rest) \<Rightarrow>
          (case partition_str rest SP of
             (st, sep2, reason) \<Rightarrow>
               (case parse_version v of
                  None \<Rightarrow> None
                | Some ver \<Rightarrow>
                    if sep1 \<noteq> [] \<and> sep2 \<noteq> [] \<and> length st = 3 \<and> (\<forall>c \<in> set st. is_digit c)
                    then Some (ver, decimal_value st, reason) else None)))"


section \<open>The message parser: one byte in each state\<close>

text \<open>
  A step takes the parser and one byte and gives the new parser and the callbacks that the
  byte makes due, or the error that the byte causes. A line ends with CR LF; the CR is kept
  in the buffer until the LF arrives.
\<close>

definition ends_with_CR :: "string \<Rightarrow> bool" where
  "ends_with_CR b \<longleftrightarrow> b \<noteq> [] \<and> last b = CR"

text \<open>Modelled from the spec: the token in progress is bounded by the configured maximum;
  exceeding it is \<open>LineTooLong\<close> or \<open>HeaderTooLarge\<close> (5).\<close>

definition append_byte ::
  "parser \<Rightarrow> char \<Rightarrow> parse_error \<Rightarrow> parse_error + parser \<times> event list" where
  "append_byte p c too_long =
     (if max_token p \<le> length (buffer p) then Inl too_long
      else Inr (p\<lparr>buffer := buffer p @ [c]\<rparr>, []))"

text \<open>The default of \<open>keep_alive\<close> for an HTTP version: on from HTTP/1.1.\<close>

definition default_keep_alive :: "nat \<Rightarrow> nat \<Rightarrow> bool" where
  "default_keep_alive mj mn \<longleftrightarrow> 1 < mj \<or> (mj = 1 \<and> 1 \<le> mn)"

text \<open>Modelled from the spec: the state \<open>StartLine\<close> (4.1). A malformed line is
  \<open>InvalidStartLine\<close>; on success the callbacks of the start line are due and the parser
  goes to \<open>HeaderField\<close>.\<close>

definition finish_start_line :: "parser \<Rightarrow> string \<Rightarrow> parse_error + parser \<times> event list" where
  "finish_start_line p line =
     (case kind p of
        Request \<Rightarrow>
          (case parse_request_line line of
             None \<Rightarrow> Inl InvalidStartLine
           | Some (m, target, mj, mn) \<Rightarrow>
               Inr (p\<lparr>state := HeaderField, buffer := [],
                      ctx := (ctx p)\<lparr>http_major := mj, http_minor := mn, req_method := Some m,
                                      keep_alive := default_keep_alive mj mn\<rparr>\<rparr>,
                    [OnMessageBegin, OnMethod m, OnUrl target]))
      | Response \<Rightarrow>
          (case parse_status_line line of
             None \<Rightarrow> Inl InvalidStartLine
           | Some ((mj, mn), code, reason) \<Rightarrow>
               Inr (p\<lparr>state := HeaderField, buffer := [],
                      ctx := (ctx p)\<lparr>http_major := mj, http_minor := mn, status_code := Some code,
                                      keep_alive := default_keep_alive mj mn\<rparr>\<rparr>,
                    [OnMessageBegin, OnStatus code reason])))"

definition step_start_line :: "parser \<Rightarrow> char \<Rightarrow> parse_error + parser \<times> event list" where
  "step_start_line p c =
     (if ends_with_CR (buffer p)
      then (if c = LF then finish_start_line p (butlast (buffer p)) else Inl InvalidStartLine)
      else if c = LF then Inl InvalidStartLine
      else append_byte p c LineTooLong)"

text \<open>The tokens of a \<open>Connection\<close> header.\<close>

definition connection_tokens :: "string \<Rightarrow> string list" where
  "connection_tokens v = map (\<lambda>t. lower (trim t)) (split_str v (CHR '',''))"

text \<open>Modelled from the spec: the headers that the parser recognises (4.1):
  \<open>Content-Length\<close>, \<open>Transfer-Encoding: chunked\<close>, \<open>Connection\<close> and \<open>Upgrade\<close>.\<close>

definition recognize :: "message_context \<Rightarrow> string \<Rightarrow> string \<Rightarrow> parse_error + message_context" where
  "recognize m name v =
     (let n = lower name in
      if n = ''content-length'' then
        (if chunked m then Inl ConflictingBodyHeaders
         else (case parse_nat v of
                 None \<Rightarrow> Inl InvalidContentLength
               | Some k \<Rightarrow>
                   if content_length_present m \<and> remaining m \<noteq> k then Inl InvalidContentLength
                   else Inr (m\<lparr>content_length_present := True, remaining := k\<rparr>)))
      else if n = ''transfer-encoding'' then
        (if lower v = ''chunked''
         then (if content_length_present m then Inl ConflictingBodyHeaders
               else Inr (m\<lparr>chunked := True\<rparr>))
         else Inr m)
      else if n = ''connection'' then
        (let ts = connection_tokens v in
         Inr (m\<lparr>keep_alive := (if ''close'' \<in> set ts then False
                                 else if ''keep-alive'' \<in> set ts then True
                                 else keep_alive m),
                upgrade := (upgrade m \<or> ''upgrade'' \<in> set ts)\<rparr>))
      else if n = ''upgrade'' then Inr (m\<lparr>upgrade := True\<rparr>)
      else Inr m)"

text \<open>Modelled from the spec: a complete field and value pair (4.1): \<open>on_header\<close> is due, and
  the next line is a header again, or a trailer after a chunked body.\<close>

definition finish_header :: "parser \<Rightarrow> string \<Rightarrow> parse_error + parser \<times> event list" where
  "finish_header p raw =
     (let v = trim raw in
      case recognize (ctx p) (field_name p) v of
        Inl e \<Rightarrow> Inl e
      | Inr m \<Rightarrow>
          Inr (p\<lparr>state := (if trailing m then Trailer else HeaderField), buffer := [],
                 field_name := [], ctx := m\<rparr>,
               [OnHeader (field_name p) v]))"

text \<open>Modelled from the spec: the blank line (4.1). It ends the headers, or after a chunked
  body the trailers and with them the message.\<close>

definition end_of_headers :: "parser \<Rightarrow> parser \<times> event list" where
  "end_of_headers p =
     (if trailing (ctx p) then (p\<lparr>state := MessageComplete, buffer := []\<rparr>, [OnMessageComplete])
      else (p\<lparr>state := HeadersComplete, buffer := []\<rparr>, [OnHeadersComplete]))"

text \<open>Modelled from the spec: the states \<open>HeaderField\<close> and \<open>Trailer\<close> (4.1). A name is made
  of token characters and ends at the colon; a line that starts with white space (a folded
  line) or has no colon is \<open>InvalidHeaderField\<close>.\<close>

definition step_header_field :: "parser \<Rightarrow> char \<Rightarrow> parse_error + parser \<times> event list" where
  "step_header_field p c =
     (if buffer p = [CR] then (if c = LF then Inr (end_of_headers p) else Inl InvalidHeaderField)
      else if c = CR \<and> buffer p = [] then Inr (p\<lparr>buffer := [CR]\<rparr>, [])
      else if c = CHR '':'' \<and> buffer p \<noteq> []
        then Inr (p\<lparr>state := HeaderValue, field_name := buffer p, buffer := []\<rparr>, [])
      else if is_tchar c then append_byte p c HeaderTooLarge
      else Inl InvalidHeaderField)"

text \<open>Modelled from the spec: the state \<open>HeaderValue\<close> (4.1): the value runs up to CR LF.\<close>

definition step_header_value :: "parser \<Rightarrow> char \<Rightarrow> parse_error + parser \<times> event list" where
  "step_header_value p c =
     (if ends_with_CR (buffer p)
      then (if c = LF then finish_header p (butlast (buffer p)) else Inl InvalidHeaderField)
      else if c = LF then Inl InvalidHeaderField
      else append_byte p c HeaderTooLarge)"

text \<open>Modelled from the spec: whether the method or the status implies that there is no
  body (3, 4.1): a request that declares no length has none; a response has none when it
  answers HEAD or its status is 1xx, 204 or 304.\<close>

definition implies_no_body :: "parser \<Rightarrow> bool" where
  "implies_no_body p =
     (case kind p of
        Request \<Rightarrow> True
      | Response \<Rightarrow>
          head_response p \<or>
          (case status_code (ctx p) of
             None \<Rightarrow> False
           | Some s \<Rightarrow> (100 \<le> s \<and> s < 200) \<or> s = 204 \<or> s = 304))"

text \<open>Modelled from the spec: the transition after \<open>on_headers_complete\<close> (4.1), in the order
  of the spec: upgrade, chunked, a positive content length, no body, and else a body that runs
  until the connection closes.\<close>

definition after_headers :: "parser \<Rightarrow> parser \<times> event list" where
  "after_headers p =
     (if upgrade (ctx p) then (p\<lparr>state := MessageComplete\<rparr>, [OnMessageComplete])
      else if chunked (ctx p) then (p\<lparr>state := BodyChunked\<rparr>, [])
      else if content_length_present (ctx p) \<and> 0 < remaining (ctx p)
        then (p\<lparr>state := BodyContentLength\<rparr>, [])
      else if (content_length_present (ctx p) \<and> remaining (ctx p) = 0) \<or> implies_no_body p
        then (p\<lparr>state := MessageComplete\<rparr>, [OnMessageComplete])
      else (p\<lparr>state := BodyIdentity\<rparr>, []))"

text \<open>Modelled from the spec: the chunk-size line is complete (4.3): \<open>on_chunk_header\<close> is
  due; size 0 is the last chunk and leads to the trailers.\<close>

definition finish_chunk_size :: "parser \<Rightarrow> string \<Rightarrow> parser \<times> event list" where
  "finish_chunk_size p digits =
     (let size = hex_value digits in
      if size = 0
      then (p\<lparr>state := Trailer, buffer := [], ctx := (ctx p)\<lparr>trailing := True\<rparr>,
              chunk := \<lparr>chunk_remaining = 0, last_chunk_seen = True\<rparr>\<rparr>,
            [OnChunkHeader 0])
      else (p\<lparr>state := ChunkData, buffer := [],
              chunk := (chunk p)\<lparr>chunk_remaining := size\<rparr>\<rparr>,
            [OnChunkHeader size]))"

text \<open>Modelled from the spec: the states \<open>BodyChunked\<close> and \<open>ChunkSize\<close> (4.3): hexadecimal
  digits, ended by \<open>;\<close> or CR LF; anything else where a digit is expected is
  \<open>InvalidChunkSize\<close>.\<close>

definition step_chunk_size :: "parser \<Rightarrow> char \<Rightarrow> parse_error + parser \<times> event list" where
  "step_chunk_size p c =
     (if ends_with_CR (buffer p)
      then (if c = LF then Inr (finish_chunk_size p (butlast (buffer p)))
            else Inl InvalidChunkSize)
      else if is_hex c then
        (case append_byte p c LineTooLong of
           Inl e \<Rightarrow> Inl e
         | Inr (p', evs) \<Rightarrow> Inr (p'\<lparr>state := ChunkSize\<rparr>, evs))
      else if buffer p = [] then Inl InvalidChunkSize
      else if c = CHR '';'' then Inr (p\<lparr>state := ChunkExtension\<rparr>, [])
      else if c = CR then append_byte p c LineTooLong
      else Inl InvalidChunkSize)"

text \<open>Modelled from the spec: the state \<open>ChunkExtension\<close> (4.3): ignored up to CR LF.\<close>

definition step_chunk_extension :: "parser \<Rightarrow> char \<Rightarrow> parse_error + parser \<times> event list" where
  "step_chunk_extension p c =
     (if ends_with_CR (buffer p)
      then (if c = LF then Inr (finish_chunk_size p (butlast (buffer p)))
            else Inl InvalidChunkSize)
      else if c = CR then append_byte p c LineTooLong
      else if c = LF then Inl InvalidChunkSize
      else Inr (p, []))"

text \<open>Modelled from the spec: the state \<open>ChunkCRLF\<close> (4.3): after the CR LF that follows the
  chunk data \<open>on_chunk_complete\<close> is due and the next chunk-size line begins.\<close>

definition step_chunk_crlf :: "parser \<Rightarrow> char \<Rightarrow> parse_error + parser \<times> event list" where
  "step_chunk_crlf p c =
     (if buffer p = [] then (if c = CR then Inr (p\<lparr>buffer := [CR]\<rparr>, []) else Inl InvalidChunkSize)
      else if c = LF then Inr (p\<lparr>state := ChunkSize, buffer := []\<rparr>, [OnChunkComplete])
      else Inl InvalidChunkSize)"

text \<open>Modelled from the spec: after \<open>MessageComplete\<close> the next byte starts a fresh
  \<open>StartLine\<close> without an external reset (3).\<close>

definition next_message :: "parser \<Rightarrow> parser" where
  "next_message p = p\<lparr>state := StartLine, ctx := clear_context, chunk := clear_chunk,
                      buffer := [], field_name := []\<rparr>"

text \<open>One byte in a state that reads byte by byte. The body states read runs of bytes and
  \<open>HeadersComplete\<close> and \<open>Error\<close> read nothing: \<open>feed\<close> handles them before it steps.\<close>

definition step :: "parser \<Rightarrow> char \<Rightarrow> parse_error + parser \<times> event list" where
  "step p c =
     (case state p of
        StartLine \<Rightarrow> step_start_line p c
      | HeaderField \<Rightarrow> step_header_field p c
      | Trailer \<Rightarrow> step_header_field p c
      | HeaderValue \<Rightarrow> step_header_value p c
      | BodyChunked \<Rightarrow> step_chunk_size p c
      | ChunkSize \<Rightarrow> step_chunk_size p c
      | ChunkExtension \<Rightarrow> step_chunk_extension p c
      | ChunkCRLF \<Rightarrow> step_chunk_crlf p c
      | MessageComplete \<Rightarrow> step_start_line (next_message p) c
      | _ \<Rightarrow> Inr (p, []))"


section \<open>The message parser: feed\<close>

text \<open>Modelled from the spec: the callbacks are invoked in order (4.2). The first callback
  that aborts ends the delivery; a pause is noted and the remaining callbacks of the same
  byte are still invoked.\<close>

fun deliver :: "(event \<Rightarrow> reply) \<Rightarrow> event list \<Rightarrow> event list \<times> reply" where
  "deliver s [] = ([], Continue)"
| "deliver s (e # es) =
     (case s e of
        Abort \<Rightarrow> ([e], Abort)
      | Pause \<Rightarrow> (case deliver s es of (d, r) \<Rightarrow> (e # d, if r = Abort then Abort else Pause))
      | Continue \<Rightarrow> (case deliver s es of (d, r) \<Rightarrow> (e # d, r)))"

text \<open>Modelled from the spec: the effect of the callbacks on the parser (4.1, 4.2): when a
  callback aborts, the parser enters \<open>Error\<close> with the reason \<open>CallbackAborted\<close> and
  consumes no further byte; the bytes that made the callback due have been read and handed
  to it. A pause keeps the new parser and marks it paused. The result is the parser and the
  callbacks invoked.\<close>

definition commit :: "parser \<Rightarrow> parser \<times> event list \<Rightarrow> parser \<times> event list" where
  "commit p next =
     (case next of
        (p', evs) \<Rightarrow>
          (case deliver (sink p) evs of
             (d, Abort) \<Rightarrow> (fail p' CallbackAborted, d)
           | (d, Pause) \<Rightarrow> (p'\<lparr>paused := True\<rparr>, d)
           | (d, Continue) \<Rightarrow> (p', d)))"

text \<open>Modelled from the spec: when \<open>feed\<close> reads nothing: in \<open>Error\<close> (3, 7), while paused
  (4.1), and after an upgrade, whose bytes this parser does not interpret (4.1).\<close>

definition stopped :: "parser \<Rightarrow> bool" where
  "stopped p \<longleftrightarrow> paused p \<or> state p = Error
                 \<or> (state p = MessageComplete \<and> upgrade (ctx p))"

text \<open>Modelled from the spec: the transitions that need no byte: the one after
  \<open>on_headers_complete\<close> (4.1), the end of a content-length body when \<open>remaining\<close> is zero
  (4.1), and the end of the chunk data (4.3).\<close>

definition resolve :: "parser \<Rightarrow> parser \<times> event list" where
  "resolve p =
     (if stopped p then (p, [])
      else (case state p of
              HeadersComplete \<Rightarrow>
                commit p (after_headers p)
            | BodyContentLength \<Rightarrow>
                if remaining (ctx p) = 0
                then commit p (p\<lparr>state := MessageComplete\<rparr>, [OnMessageComplete])
                else (p, [])
            | ChunkData \<Rightarrow>
                if chunk_remaining (chunk p) = 0 then (p\<lparr>state := ChunkCRLF\<rparr>, []) else (p, [])
            | _ \<Rightarrow> (p, [])))"

text \<open>Modelled from the spec: the next piece of the input (4.1, 4.3): in the body states the
  longest run of body bytes that the input holds, delivered by one \<open>on_body\<close>; in the other
  states one byte. The result is the new parser, the callbacks due, and the number of bytes
  read.\<close>

definition advance :: "parser \<Rightarrow> string \<Rightarrow> parse_error + parser \<times> event list \<times> nat" where
  "advance p bs =
     (case state p of
        BodyContentLength \<Rightarrow>
          (let n = min (remaining (ctx p)) (length bs) in
           Inr (p\<lparr>ctx := (ctx p)\<lparr>remaining := remaining (ctx p) - n\<rparr>\<rparr>, [OnBody (take n bs)], n))
      | ChunkData \<Rightarrow>
          (let n = min (chunk_remaining (chunk p)) (length bs) in
           Inr (p\<lparr>chunk := (chunk p)\<lparr>chunk_remaining := chunk_remaining (chunk p) - n\<rparr>\<rparr>,
                [OnBody (take n bs)], n))
      | BodyIdentity \<Rightarrow> Inr (p, [OnBody bs], length bs)
      | _ \<Rightarrow>
          (case step p (hd bs) of
             Inl e \<Rightarrow> Inl e
           | Inr (p', evs) \<Rightarrow> Inr (p', evs, 1)))"

text \<open>Modelled from the spec: the loop of \<open>feed\<close> (4.1). It returns the parser, the callbacks
  invoked with their payloads in order, and the number of bytes consumed. A byte that the
  step rejects, and the bytes after it, are not consumed. After an abort or a pause the parser
  has stopped, and the next round of the loop ends it.\<close>

function feed_loop :: "parser \<Rightarrow> string \<Rightarrow> parser \<times> event list \<times> nat" where
  "feed_loop p bs =
     (case resolve p of
        (p1, ev1) \<Rightarrow>
          if stopped p1 \<or> bs = [] then (p1, ev1, 0)
          else (case advance p1 bs of
                  Inl e \<Rightarrow> (fail p1 e, ev1, 0)
                | Inr (p2, evs, n) \<Rightarrow>
                    (case commit p1 (p2, evs) of
                       (p3, ev2) \<Rightarrow>
                         if n = 0 then (p3, ev1 @ ev2, 0)
                         else (case feed_loop p3 (drop n bs) of
                                 (p4, ev3, k) \<Rightarrow> (p4, ev1 @ ev2 @ ev3, n + k)))))"
  by pat_completeness auto
termination
  by (relation "measure (\<lambda>(p, bs). length bs)") auto

declare feed_loop.simps [simp del]

text \<open>Modelled from the spec: \<open>feed(bytes) -> consumed_count | Error\<close> (4.1, 6, 7). In
  \<open>Error\<close> and while paused the call is refused and nothing is consumed. The result is the
  parser, the callbacks invoked, the number of bytes consumed, and the error if there is
  one.\<close>

definition feed :: "parser \<Rightarrow> string \<Rightarrow> parser \<times> event list \<times> nat \<times> parse_error option" where
  "feed p bs =
     (if state p = Error then (p, [], 0, failure p)
      else if paused p then (p, [], 0, Some Paused)
      else (case feed_loop p bs of
              (p', evs, n) \<Rightarrow>
                (p', evs, n, if state p' = Error then failure p' else None)))"

text \<open>Fragments fed one after the other: the last parser, all callbacks in order, the total
  of the bytes consumed, and the result of each call.\<close>

fun feed_all :: "parser \<Rightarrow> string list \<Rightarrow> parser \<times> event list \<times> nat \<times> parse_error option list" where
  "feed_all p [] = (p, [], 0, [])"
| "feed_all p (b # bs) =
     (case feed p b of
        (p1, ev1, n1, r1) \<Rightarrow>
          (case feed_all p1 bs of
             (p2, ev2, n2, rs) \<Rightarrow> (p2, ev1 @ ev2, n1 + n2, r1 # rs)))"

text \<open>Consecutive \<open>on_body\<close> callbacks joined into one, their payloads concatenated.\<close>

fun join_body :: "event \<Rightarrow> event list \<Rightarrow> event list" where
  "join_body (OnBody a) (OnBody b # es) = OnBody (a @ b) # es"
| "join_body e es = e # es"

fun merge_bodies :: "event list \<Rightarrow> event list" where
  "merge_bodies [] = []"
| "merge_bodies (e # es) = join_body e (merge_bodies es)"

text \<open>The parser instances that can exist: constructed, and then fed, reset, paused and
  resumed in any order.\<close>

inductive reachable :: "parser \<Rightarrow> bool" where
  constructed: "reachable (new_parser k s bound hd_resp)"
| fed: "reachable p \<Longrightarrow> feed p bs = (p', evs, n, r) \<Longrightarrow> reachable p'"
| was_reset: "reachable p \<Longrightarrow> reachable (reset p)"
| was_paused: "reachable p \<Longrightarrow> reachable (pause p)"
| was_resumed: "reachable p \<Longrightarrow> reachable (resume p)"

text \<open>Example inputs: a callback sink that never aborts or pauses, the line end, and parsers
  as constructed.\<close>

definition quiet :: "event \<Rightarrow> reply" where
  "quiet e = Continue"

definition crlf :: string where
  "crlf = [CR, LF]"

definition request_parser :: parser where
  "request_parser = new_parser Request quiet 8192 False"

definition response_parser :: parser where
  "response_parser = new_parser Response quiet 8192 False"

definition head_response_parser :: parser where
  "head_response_parser = new_parser Response quiet 8192 True"

text \<open>The result of a loop that has already invoked \<open>evs\<close> and consumed \<open>n\<close> bytes.\<close>

definition prepend ::
  "event list \<Rightarrow> nat \<Rightarrow> parser \<times> event list \<times> nat \<Rightarrow> parser \<times> event list \<times> nat" where
  "prepend evs n r = (case r of (q, ev, k) \<Rightarrow> (q, evs @ ev, n + k))"

text \<open>The states in which \<open>feed\<close> reads byte by byte.\<close>

definition byte_state :: "parser_state \<Rightarrow> bool" where
  "byte_state s \<longleftrightarrow> s \<noteq> HeadersComplete \<and> s \<noteq> BodyContentLength \<and> s \<noteq> ChunkData
                    \<and> s \<noteq> BodyIdentity \<and> s \<noteq> Error"

text \<open>A sink whose callbacks never abort and never pause.\<close>

definition continues :: "parser \<Rightarrow> bool" where
  "continues p \<longleftrightarrow> (\<forall>e. sink p e = Continue)"

text \<open>A parser that a line feed alone has put into \<open>Error\<close>.\<close>

definition broken_parser :: parser where
  "broken_parser = fail request_parser InvalidStartLine"

text \<open>In \<open>Error\<close> the parser always holds a reason, and the reason is never \<open>Paused\<close>.\<close>

definition error_has_reason :: "parser \<Rightarrow> bool" where
  "error_has_reason p \<longleftrightarrow> (state p = Error \<longrightarrow> (\<exists>e. failure p = Some e \<and> e \<noteq> Paused))"

text \<open>The request parser after the line \<open>GET / HTTP/1.1\<close>.\<close>

definition after_request_line :: parser where
  "after_request_line =
     request_parser\<lparr>state := HeaderField,
       ctx := clear_context\<lparr>http_major := 1, http_minor := 1, req_method := Some GET, keep_alive := True\<rparr>\<rparr>"


text \<open>The body states, the parser after a run of \<open>n\<close> body bytes, and the length of the
  run that an input allows.\<close>

definition run_state :: "parser_state \<Rightarrow> bool" where
  "run_state s \<longleftrightarrow> s = BodyContentLength \<or> s = ChunkData \<or> s = BodyIdentity"

definition consume :: "parser \<Rightarrow> nat \<Rightarrow> parser" where
  "consume p n =
     (case state p of
        BodyContentLength \<Rightarrow> p\<lparr>ctx := (ctx p)\<lparr>remaining := remaining (ctx p) - n\<rparr>\<rparr>
      | ChunkData \<Rightarrow> p\<lparr>chunk := (chunk p)\<lparr>chunk_remaining := chunk_remaining (chunk p) - n\<rparr>\<rparr>
      | _ \<Rightarrow> p)"

definition run_length :: "parser \<Rightarrow> nat \<Rightarrow> nat" where
  "run_length p len =
     (case state p of
        BodyContentLength \<Rightarrow> min (remaining (ctx p)) len
      | ChunkData \<Rightarrow> min (chunk_remaining (chunk p)) len
      | _ \<Rightarrow> len)"

text \<open>Whether a callback is \<open>on_body\<close>.\<close>

fun is_body :: "event \<Rightarrow> bool" where
  "is_body (OnBody x) = True"
| "is_body e = False"


section \<open>Messages as the sender writes them\<close>

text \<open>The bytes of well-formed messages, to state what the parser does with them.\<close>

fun method_name :: "http_method \<Rightarrow> string" where
  "method_name GET = ''GET''"
| "method_name HEAD = ''HEAD''"
| "method_name POST = ''POST''"
| "method_name PUT = ''PUT''"
| "method_name DELETE = ''DELETE''"
| "method_name CONNECT = ''CONNECT''"
| "method_name OPTIONS = ''OPTIONS''"
| "method_name TRACE = ''TRACE''"
| "method_name PATCH = ''PATCH''"

definition digit_char :: "nat \<Rightarrow> char" where
  "digit_char n = ''0123456789'' ! n"

definition version_text :: "nat \<Rightarrow> nat \<Rightarrow> string" where
  "version_text mj mn = ''HTTP/'' @ [digit_char mj, CHR ''.'', digit_char mn]"

definition request_line :: "http_method \<Rightarrow> string \<Rightarrow> nat \<Rightarrow> nat \<Rightarrow> string" where
  "request_line m target mj mn = method_name m @ SP # target @ SP # version_text mj mn"

text \<open>The status code as three digits.\<close>

definition status_text :: "nat \<Rightarrow> string" where
  "status_text code =
     [digit_char (code div 100), digit_char (code div 10 mod 10), digit_char (code mod 10)]"

definition status_line :: "nat \<Rightarrow> nat \<Rightarrow> nat \<Rightarrow> string \<Rightarrow> string" where
  "status_line mj mn code reason = version_text mj mn @ SP # status_text code @ SP # reason"

text \<open>A header is a name and the raw text after the colon.\<close>

definition header_line :: "string \<times> string \<Rightarrow> string" where
  "header_line h = fst h @ CHR '':'' # snd h @ [CR, LF]"

definition render_headers :: "(string \<times> string) list \<Rightarrow> string" where
  "render_headers hs = concat (map header_line hs)"

definition request_head ::
  "http_method \<Rightarrow> string \<Rightarrow> nat \<Rightarrow> nat \<Rightarrow> (string \<times> string) list \<Rightarrow> string" where
  "request_head m target mj mn hs =
     request_line m target mj mn @ [CR, LF] @ render_headers hs @ [CR, LF]"

definition response_head ::
  "nat \<Rightarrow> nat \<Rightarrow> nat \<Rightarrow> string \<Rightarrow> (string \<times> string) list \<Rightarrow> string" where
  "response_head mj mn code reason hs =
     status_line mj mn code reason @ [CR, LF] @ render_headers hs @ [CR, LF]"

text \<open>A header that is well-formed and within the bound on tokens.\<close>

definition wf_header :: "nat \<Rightarrow> string \<times> string \<Rightarrow> bool" where
  "wf_header bound h \<longleftrightarrow>
     fst h \<noteq> [] \<and> (\<forall>x \<in> set (fst h). is_tchar x) \<and> length (fst h) \<le> bound
     \<and> CR \<notin> set (snd h) \<and> LF \<notin> set (snd h) \<and> length (snd h) < bound"

text \<open>A request target: not empty, without spaces and line ends.\<close>

definition wf_target :: "string \<Rightarrow> bool" where
  "wf_target t \<longleftrightarrow> t \<noteq> [] \<and> SP \<notin> set t \<and> CR \<notin> set t \<and> LF \<notin> set t"

text \<open>What \<open>recognize\<close> makes of a list of headers in order; the callback of a header.\<close>

fun recognize_all ::
  "message_context \<Rightarrow> (string \<times> string) list \<Rightarrow> parse_error + message_context" where
  "recognize_all m [] = Inr m"
| "recognize_all m (h # hs) =
     (case recognize m (fst h) (trim (snd h)) of
        Inl e \<Rightarrow> Inl e
      | Inr m' \<Rightarrow> recognize_all m' hs)"

definition header_event :: "string \<times> string \<Rightarrow> event" where
  "header_event h = OnHeader (fst h) (trim (snd h))"

text \<open>The message context after the start line.\<close>

definition request_context :: "http_method \<Rightarrow> nat \<Rightarrow> nat \<Rightarrow> message_context" where
  "request_context m mj mn =
     clear_context\<lparr>http_major := mj, http_minor := mn, req_method := Some m,
                   keep_alive := default_keep_alive mj mn\<rparr>"

definition response_context :: "nat \<Rightarrow> nat \<Rightarrow> nat \<Rightarrow> message_context" where
  "response_context mj mn code =
     clear_context\<lparr>http_major := mj, http_minor := mn, status_code := Some code,
                   keep_alive := default_keep_alive mj mn\<rparr>"

text \<open>The number of body bytes that a sequence of callbacks has been handed.\<close>

fun body_bytes :: "event list \<Rightarrow> nat" where
  "body_bytes [] = 0"
| "body_bytes (OnBody x # es) = length x + body_bytes es"
| "body_bytes (e # es) = body_bytes es"

text \<open>A result of \<open>feed\<close> that reports a byte which the parser rejects: an error other than
  an aborted callback, from a call that was not refused.\<close>

definition parse_fault :: "parser \<Rightarrow> parse_error option \<Rightarrow> bool" where
  "parse_fault p r \<longleftrightarrow>
     state p \<noteq> Error \<and> \<not> paused p \<and> r \<noteq> None \<and> r \<noteq> Some CallbackAborted"

text \<open>A sink whose callbacks for the events in \<open>E\<close> neither abort nor pause.\<close>

definition accepts :: "parser \<Rightarrow> event set \<Rightarrow> bool" where
  "accepts p E \<longleftrightarrow> (\<forall>e \<in> E. sink p e = Continue)"

text \<open>A sink whose \<open>on_body\<close> callback aborts, a request parser with it, and two inputs: a
  request line followed by a folded header line, and a request with a body of five bytes
  followed by two more bytes.\<close>

definition abort_on_body :: "event \<Rightarrow> reply" where
  "abort_on_body e = (if is_body e then Abort else Continue)"

definition guarded_parser :: parser where
  "guarded_parser = new_parser Request abort_on_body 8192 False"

definition folded_request :: string where
  "folded_request = ''GET / HTTP/1.1'' @ CR # LF # '' x''"

definition post_request :: string where
  "post_request = ''POST / HTTP/1.1'' @ CR # LF # ''Content-Length: 5'' @ CR # LF # CR # LF # ''helloXY''"


section \<open>setup.py: the version guard\<close>

lemma vi_lt_3_5:
  "tuple_lt (as_tuple vi) [PInt 3, PInt 5] = Inr (major vi < 3 \<or> (major vi = 3 \<and> minor vi < 5))"
  by (auto simp: as_tuple_def)

text \<open>
  Claim C8. When \<open>setuptools\<close> can be imported, the comparison \<open>vi < (3, 5)\<close> is true exactly
  for the interpreters older than 3.5. Where it is true the script ends with the
  \<open>RuntimeError\<close> of line 10 and never reaches the call of \<open>setup\<close>; where it is false the
  guard raises nothing and the script is the rest of the module body.
\<close>

theorem version_guard_raises_below_3_5:
  assumes "setuptools_importable env"
  shows "tuple_lt (as_tuple (sys_version_info env)) [PInt 3, PInt 5]
           = Inr (major (sys_version_info env) < 3
                  \<or> (major (sys_version_info env) = 3 \<and> minor (sys_version_info env) < 5))
       \<and> (tuple_lt (as_tuple (sys_version_info env)) [PInt 3, PInt 5] = Inr True \<longrightarrow>
            run_setup_py env = Inl (RuntimeError ''httptools require Python 3.5 or greater''))
       \<and> (tuple_lt (as_tuple (sys_version_info env)) [PInt 3, PInt 5] = Inr False \<longrightarrow>
            version_guard (sys_version_info env) = Inr () \<and> run_setup_py env = script_body env)"
  using assms by (auto simp: vi_lt_3_5 run_setup_py_def version_guard_def)

text \<open>Python 3.4.10 is stopped by the guard, Python 3.5.0 passes it.\<close>

theorem version_guard_raises_below_3_5_witness:
  "setuptools_importable py34 \<and> setuptools_importable py35
   \<and> tuple_lt (as_tuple (sys_version_info py34)) [PInt 3, PInt 5] = Inr True
   \<and> run_setup_py py34 = Inl (RuntimeError ''httptools require Python 3.5 or greater'')
   \<and> tuple_lt (as_tuple (sys_version_info py35)) [PInt 3, PInt 5] = Inr False
   \<and> version_guard (sys_version_info py35) = Inr ()
   \<and> run_setup_py py35 = script_body py35"
proof -
  have a: "setuptools_importable py34" and b: "setuptools_importable py35"
    by (simp_all add: py34_def py35_def)
  have c: "tuple_lt (as_tuple (sys_version_info py34)) [PInt 3, PInt 5] = Inr True"
    by (simp add: py34_def as_tuple_def)
  have d: "tuple_lt (as_tuple (sys_version_info py35)) [PInt 3, PInt 5] = Inr False"
    by (simp add: py34_def py35_def as_tuple_def)
  from version_guard_raises_below_3_5 [OF a] version_guard_raises_below_3_5 [OF b] a b c d
  show ?thesis by simp
qed


section \<open>setup.py: repeated calls of the option methods\<close>

lemma finalize_options_sets_initialized:
  "finalize_options env self = Inr self' \<Longrightarrow> getattr_initialized self'"
  by (auto simp: finalize_options_def getattr_initialized_def
           split: if_splits prod.splits sum.splits)

lemma initialize_options_initialized:
  "getattr_initialized self \<Longrightarrow> initialize_options env self = self"
  by (simp add: initialize_options_def)

lemma finalize_options_initialized:
  "getattr_initialized self \<Longrightarrow> finalize_options env self = Inr self"
  by (simp add: finalize_options_def)

lemma run_calls_initialized:
  "getattr_initialized self \<Longrightarrow> run_calls calls self = Inr self"
proof (induction calls)
  case Nil
  show ?case by simp
next
  case (Cons c calls)
  obtain env m where c: "c = (env, m)" by (cases c)
  show ?case
    using Cons by (cases m) (simp_all add: c initialize_options_initialized finalize_options_initialized)
qed

text \<open>
  Claim C9. Once \<open>finalize_options\<close> has returned, \<open>_initialized\<close> is true, and from then on
  \<open>initialize_options\<close> and \<open>finalize_options\<close> return the object as it is, in any
  surroundings and in any sequence of such calls: the four option attributes and the source
  lists of the extensions, all fields of the object, stay as they are.
\<close>

theorem options_idempotent_once_initialized:
  assumes "finalize_options env self = Inr self'"
  shows "getattr_initialized self'
       \<and> initialize_options env' self' = self'
       \<and> finalize_options env' self' = Inr self'
       \<and> run_calls calls self' = Inr self'"
proof -
  have "getattr_initialized self'"
    using assms by (rule finalize_options_sets_initialized)
  then show ?thesis
    by (simp add: initialize_options_initialized finalize_options_initialized run_calls_initialized)
qed

lemma example_finalize: "finalize_options example_env example_command = Inr example_finalized"
  by (simp add: finalize_options_def example_env_def example_command_def example_finalized_def
      getattr_initialized_def endswith_def splitext_def)

text \<open>A run on the extension of this repository, with the generated C file present.\<close>

theorem options_idempotent_once_initialized_witness:
  "finalize_options example_env example_command = Inr example_finalized
   \<and> getattr_initialized example_finalized
   \<and> initialize_options (example_env\<lparr>fs := Map.empty\<rparr>) example_finalized = example_finalized
   \<and> finalize_options (example_env\<lparr>fs := Map.empty\<rparr>) example_finalized = Inr example_finalized
   \<and> run_calls [(example_env, Initialize), (example_env, Finalize), (example_env, Finalize)]
        example_finalized = Inr example_finalized"
  using options_idempotent_once_initialized [OF example_finalize,
      where env' = "example_env\<lparr>fs := Map.empty\<rparr>"
        and calls = "[(example_env, Initialize), (example_env, Finalize), (example_env, Finalize)]"]
    example_finalize
  by simp


section \<open>setup.py: the Cython directives\<close>

lemma parse_directive_eq:
  "parse_directive d =
     (if lower (directive_value d) = ''false'' then Inl AttributeError
      else if lower (directive_value d) = ''true'' then Inr (directive_key d, DBool True)
      else Inr (directive_key d, DStr (directive_value d)))"
  by (simp add: parse_directive_def directive_value_def directive_key_def Let_def
           split: prod.splits)

lemma parse_directives_raises:
  "(parse_directives ds m = Inl AttributeError) \<longleftrightarrow> (\<exists>d \<in> set ds. lower (directive_value d) = ''false'')"
  by (induction ds arbitrary: m) (auto simp: parse_directive_eq)

lemma parse_directives_ok:
  "(\<exists>m'. parse_directives ds m = Inr m') \<longleftrightarrow> (\<forall>d \<in> set ds. lower (directive_value d) \<noteq> ''false'')"
  by (induction ds arbitrary: m) (auto simp: parse_directive_eq)

lemma scan_sources_always: "snd (snd (scan_sources files always srcs cf True))"
  by (induction srcs arbitrary: cf) (auto simp: Let_def case_prod_beta)

lemma scan_extensions_always: "snd (snd (scan_extensions files always exts cf True))"
proof (induction exts arbitrary: cf)
  case Nil show ?case by simp
next
  case (Cons e exts)
  obtain srcs cf1 nd where s: "scan_sources files always (sources e) cf True = (srcs, cf1, nd)"
    by (cases "scan_sources files always (sources e) cf True") auto
  with scan_sources_always [of files always "sources e" cf] have "nd" by simp
  with s Cons [of cf1] show ?case by (auto split: prod.splits)
qed

text \<open>
  Claim C10. A directive raises \<open>AttributeError\<close> exactly when its value is \<open>false\<close> in any
  mix of cases: the first \<open>if\<close> replaces \<open>v\<close> by the boolean and the second one calls
  \<open>v.lower()\<close> on it. Every other directive is stored, \<open>true\<close> as the boolean and anything
  else as the string it is. The loop raises exactly when one of its directives does,
  \<open>boundscheck=false\<close> is such a directive, and nothing in \<open>finalize_options\<close> catches the
  exception.
\<close>

theorem directive_false_raises_AttributeError:
  "(parse_directive d = Inl AttributeError \<longleftrightarrow> lower (directive_value d) = ''false'')
   \<and> (lower (directive_value d) \<noteq> ''false'' \<longrightarrow>
        parse_directive d =
          Inr (directive_key d,
               if lower (directive_value d) = ''true'' then DBool True else DStr (directive_value d)))
   \<and> (parse_directives ds m = Inl AttributeError \<longleftrightarrow>
        (\<exists>x \<in> set ds. lower (directive_value x) = ''false''))
   \<and> parse_directive ''boundscheck=false'' = Inl AttributeError
   \<and> (\<not> getattr_initialized self \<and> cython_always self \<and> cython_version env = Some ver
        \<and> \<not> str_lt ver ''0.28'' \<and> cython_directives self = Some s \<and> s \<noteq> []
        \<and> (\<exists>x \<in> set (split_str s (CHR '','')). lower (directive_value x) = ''false'') \<longrightarrow>
        finalize_options env self = Inl AttributeError)"
proof -
  have 1: "parse_directive d = Inl AttributeError \<longleftrightarrow> lower (directive_value d) = ''false''"
    by (simp add: parse_directive_eq)
  have 2: "lower (directive_value d) \<noteq> ''false'' \<longrightarrow>
        parse_directive d =
          Inr (directive_key d,
               if lower (directive_value d) = ''true'' then DBool True else DStr (directive_value d))"
    by (simp add: parse_directive_eq)
  have 3: "parse_directives ds m = Inl AttributeError \<longleftrightarrow>
        (\<exists>x \<in> set ds. lower (directive_value x) = ''false'')"
    by (rule parse_directives_raises)
  have 4: "parse_directive ''boundscheck=false'' = Inl AttributeError"
    by (simp add: parse_directive_def partition_str_def lower_def lower_char_def)
  have 5: "finalize_options env self = Inl AttributeError"
    if a: "\<not> getattr_initialized self" "cython_always self" "cython_version env = Some ver"
        "\<not> str_lt ver ''0.28''" "cython_directives self = Some s" "s \<noteq> []"
        "\<exists>x \<in> set (split_str s (CHR '','')). lower (directive_value x) = ''false''"
  proof -
    obtain exts cf nd where sc:
      "scan_extensions (fs env) (cython_always self) (ext_modules self) Map.empty True = (exts, cf, nd)"
      by (cases "scan_extensions (fs env) (cython_always self) (ext_modules self) Map.empty True") auto
    with scan_extensions_always [of "fs env" "cython_always self" "ext_modules self" Map.empty]
    have nd: "nd" by simp
    have rd: "read_directives (Some s) = Inl AttributeError"
      using a(6,7) by (simp add: read_directives_def parse_directives_raises)
    have "run_cythonize env (self\<lparr>ext_modules := exts\<rparr>) = Inl AttributeError"
      using a(3,4,5) rd by (simp add: run_cythonize_def)
    then show ?thesis
      using a(1,2) sc nd by (simp add: finalize_options_def)
  qed
  from 1 2 3 4 5 show ?thesis by blast
qed

text \<open>The option \<open>--cython-directives=language_level=3,boundscheck=False\<close>.\<close>

theorem directive_false_raises_AttributeError_witness:
  "lower (directive_value ''wraparound=TRUE'') \<noteq> ''false''
   \<and> parse_directive ''wraparound=TRUE'' = Inr (''wraparound'', DBool True)
   \<and> (\<exists>x \<in> set [''language_level=3'', ''boundscheck=False'']. lower (directive_value x) = ''false'')
   \<and> parse_directives [''language_level=3'', ''boundscheck=False''] Map.empty = Inl AttributeError
   \<and> \<not> getattr_initialized directives_command \<and> cython_always directives_command
   \<and> cython_version example_env = Some ''0.29.36'' \<and> \<not> str_lt ''0.29.36'' ''0.28''
   \<and> cython_directives directives_command = Some ''language_level=3,boundscheck=False''
   \<and> (\<exists>x \<in> set (split_str ''language_level=3,boundscheck=False'' (CHR '','')).
         lower (directive_value x) = ''false'')
   \<and> finalize_options example_env directives_command = Inl AttributeError"
proof -
  have v: "directive_value ''wraparound=TRUE'' = ''TRUE''" "directive_key ''wraparound=TRUE'' = ''wraparound''"
    "directive_value ''boundscheck=False'' = ''False''"
    by (simp_all add: directive_value_def directive_key_def partition_str_def)
  have l: "lower ''TRUE'' = ''true''" "lower ''False'' = ''false''"
    by (simp_all add: lower_def lower_char_def)
  have sp: "split_str ''language_level=3,boundscheck=False'' (CHR '','')
            = [''language_level=3'', ''boundscheck=False'']"
    by simp
  have pre: "\<not> getattr_initialized directives_command" "cython_always directives_command"
    "cython_version example_env = Some ''0.29.36''" "\<not> str_lt ''0.29.36'' ''0.28''"
    "cython_directives directives_command = Some ''language_level=3,boundscheck=False''"
    by (simp_all add: directives_command_def example_env_def getattr_initialized_def)
  have ex: "\<exists>x \<in> set [''language_level=3'', ''boundscheck=False'']. lower (directive_value x) = ''false''"
    using v l by simp
  from directive_false_raises_AttributeError
         [of "''wraparound=TRUE''" "[''language_level=3'', ''boundscheck=False'']" Map.empty
             directives_command example_env "''0.29.36''" "''language_level=3,boundscheck=False''"]
       v l sp pre ex
  show ?thesis by simp
qed


section \<open>The message parser: basic facts about the steps and the loop\<close>

lemmas step_defs = step_def step_start_line_def step_header_field_def step_header_value_def
  step_chunk_size_def step_chunk_extension_def step_chunk_crlf_def append_byte_def
  finish_start_line_def finish_header_def end_of_headers_def finish_chunk_size_def
  next_message_def

lemma step_frame:
  assumes "step p c = Inr (p', evs)"
  shows "sink p' = sink p \<and> paused p' = paused p \<and> kind p' = kind p
       \<and> max_token p' = max_token p \<and> head_response p' = head_response p
       \<and> failure p' = failure p \<and> (state p \<noteq> Error \<longrightarrow> state p' \<noteq> Error)"
  using assms
  by (auto simp: step_defs Let_def split: parser_state.splits if_splits parser_kind.splits
      option.splits sum.splits prod.splits)

lemma step_error_kind:
  assumes "step p c = Inl e"
  shows "e \<noteq> Paused \<and> e \<noteq> CallbackAborted"
  using assms
  by (auto simp: step_defs recognize_def Let_def split: parser_state.splits if_splits parser_kind.splits
      option.splits sum.splits prod.splits)

lemma advance_frame:
  assumes "advance p bs = Inr (p', evs, n)"
  shows "sink p' = sink p \<and> paused p' = paused p \<and> kind p' = kind p
       \<and> max_token p' = max_token p \<and> head_response p' = head_response p
       \<and> failure p' = failure p \<and> (state p \<noteq> Error \<longrightarrow> state p' \<noteq> Error)"
proof (cases "state p = BodyContentLength \<or> state p = ChunkData \<or> state p = BodyIdentity")
  case True
  with assms show ?thesis by (auto simp: advance_def Let_def)
next
  case False
  with assms obtain q where "step p (hd bs) = Inr (q, evs)" and "p' = q"
    by (auto simp: advance_def split: parser_state.splits sum.splits)
  with step_frame [of p "hd bs" p' evs] show ?thesis by simp
qed

lemma advance_error:
  assumes "advance p bs = Inl e"
  shows "step p (hd bs) = Inl e \<and> e \<noteq> Paused \<and> e \<noteq> CallbackAborted"
proof -
  from assms have "step p (hd bs) = Inl e"
    by (auto simp: advance_def Let_def split: parser_state.splits sum.splits)
  with step_error_kind show ?thesis by blast
qed

lemma commit_cases:
  assumes "commit p (p', evs) = (q, d)"
  shows "q = p' \<or> q = p'\<lparr>paused := True\<rparr> \<or> q = fail p' CallbackAborted"
  using assms by (auto simp: commit_def split: prod.splits reply.splits)

lemma resolve_post:
  assumes "resolve p = (p1, ev1)" and "\<not> stopped p1"
  shows "state p1 \<noteq> HeadersComplete
       \<and> (state p1 = BodyContentLength \<longrightarrow> 0 < remaining (ctx p1))
       \<and> (state p1 = ChunkData \<longrightarrow> 0 < chunk_remaining (chunk p1))"
  using assms
  by (auto simp: resolve_def commit_def after_headers_def stopped_def fail_def
           split: if_splits parser_state.splits prod.splits reply.splits)

lemma resolve_error:
  assumes "resolve p = (p1, ev1)" and "state p \<noteq> Error" and "state p1 = Error"
  shows "failure p1 = Some CallbackAborted"
  using assms
  by (auto simp: resolve_def commit_def after_headers_def stopped_def fail_def
           split: if_splits parser_state.splits prod.splits reply.splits)

lemma advance_bounds:
  assumes "resolve p = (p1, ev1)" and "\<not> stopped p1" and "bs \<noteq> []"
    and "advance p1 bs = Inr (p2, evs, n)"
  shows "0 < n \<and> n \<le> length bs"
proof -
  from resolve_post [OF assms(1,2)] assms(3,4) show ?thesis
    by (cases bs) (auto simp: advance_def Let_def split: parser_state.splits sum.splits)
qed

lemma feed_loop_stop:
  "resolve p = (p1, ev1) \<Longrightarrow> stopped p1 \<or> bs = [] \<Longrightarrow> feed_loop p bs = (p1, ev1, 0)"
  by (simp add: feed_loop.simps [of p bs])

lemma feed_loop_error:
  "resolve p = (p1, ev1) \<Longrightarrow> \<not> stopped p1 \<Longrightarrow> bs \<noteq> [] \<Longrightarrow> advance p1 bs = Inl e
   \<Longrightarrow> feed_loop p bs = (fail p1 e, ev1, 0)"
  by (simp add: feed_loop.simps [of p bs])

lemma feed_loop_go:
  "resolve p = (p1, ev1) \<Longrightarrow> \<not> stopped p1 \<Longrightarrow> bs \<noteq> [] \<Longrightarrow> advance p1 bs = Inr (p2, evs, n)
   \<Longrightarrow> commit p1 (p2, evs) = (p3, ev2) \<Longrightarrow> feed_loop p3 (drop n bs) = (p4, ev3, k)
   \<Longrightarrow> feed_loop p bs = (p4, ev1 @ ev2 @ ev3, n + k)"
  using advance_bounds [of p p1 ev1 bs p2 evs n]
  by (simp add: feed_loop.simps [of p bs])

lemma feed_loop_induct [case_names stop error go]:
  assumes stop: "\<And>p bs p1 ev1. \<lbrakk>resolve p = (p1, ev1); stopped p1 \<or> bs = []\<rbrakk> \<Longrightarrow> P p bs"
    and error: "\<And>p bs p1 ev1 e.
        \<lbrakk>resolve p = (p1, ev1); \<not> stopped p1; bs \<noteq> []; advance p1 bs = Inl e\<rbrakk> \<Longrightarrow> P p bs"
    and go: "\<And>p bs p1 ev1 p2 evs n p3 ev2.
        \<lbrakk>resolve p = (p1, ev1); \<not> stopped p1; bs \<noteq> []; advance p1 bs = Inr (p2, evs, n);
         commit p1 (p2, evs) = (p3, ev2); 0 < n; n \<le> length bs; P p3 (drop n bs)\<rbrakk>
        \<Longrightarrow> P p bs"
  shows "P p bs"
proof (induction "length bs" arbitrary: p bs rule: less_induct)
  case less
  obtain p1 ev1 where r: "resolve p = (p1, ev1)" by (cases "resolve p")
  show ?case
  proof (cases "stopped p1 \<or> bs = []")
    case True
    with r show ?thesis by (rule stop)
  next
    case False
    then have ns: "\<not> stopped p1" and ne: "bs \<noteq> []" by simp_all
    show ?thesis
    proof (cases "advance p1 bs")
      case (Inl e)
      with r ns ne show ?thesis by (rule error)
    next
      case (Inr t)
      obtain p2 evs n where t: "t = (p2, evs, n)" by (cases t)
      with Inr have a: "advance p1 bs = Inr (p2, evs, n)" by simp
      obtain p3 ev2 where c: "commit p1 (p2, evs) = (p3, ev2)"
        by (cases "commit p1 (p2, evs)")
      from advance_bounds [OF r ns ne a] have n: "0 < n" "n \<le> length bs" by simp_all
      with ne have "length (drop n bs) < length bs" by simp
      then have "P p3 (drop n bs)" by (rule less)
      with r ns ne a c n show ?thesis by (auto intro: go)
    qed
  qed
qed

lemma feed_loop_consumed_le: "snd (snd (feed_loop p bs)) \<le> length bs"
proof (induction p bs rule: feed_loop_induct)
  case (stop p bs p1 ev1)
  then show ?case by (simp add: feed_loop_stop)
next
  case (error p bs p1 ev1 e)
  then show ?case by (simp add: feed_loop_error)
next
  case (go p bs p1 ev1 p2 evs n p3 ev2)
  obtain p4 ev3 k where f: "feed_loop p3 (drop n bs) = (p4, ev3, k)"
    by (cases "feed_loop p3 (drop n bs)")
  with go show ?case by (simp add: feed_loop_go [OF go(1-5) f])
qed


section \<open>The message parser: the consumed count\<close>

lemma advance_take:
  assumes "advance p bs = Inr (p2, evs, n)" and "0 < n" and "n \<le> j" and "j \<le> length bs"
  shows "advance p (take j bs) = Inr (p2, evs, n)"
proof (cases "state p = BodyContentLength \<or> state p = ChunkData \<or> state p = BodyIdentity")
  case True
  with assms show ?thesis
    by (auto simp: advance_def Let_def min_def split: if_splits)
next
  case False
  from assms(2,3) have "hd (take j bs) = hd bs" by (cases bs; cases j) simp_all
  with False assms(1) show ?thesis
    by (auto simp: advance_def split: parser_state.splits)
qed

text \<open>A piece that ends before the input does is the same for every input that starts with
  the same bytes.\<close>

lemma advance_agree:
  assumes "advance p bs = Inr (p2, evs, n)" and "0 < n" and "n < length bs"
    and "take n bs' = take n bs" and "n \<le> length bs'"
  shows "advance p bs' = Inr (p2, evs, n)"
proof (cases "state p = BodyContentLength \<or> state p = ChunkData \<or> state p = BodyIdentity")
  case True
  with assms show ?thesis
    by (auto simp: advance_def Let_def min_def split: if_splits)
next
  case False
  with assms(1) have n: "n = 1"
    by (auto simp: advance_def split: parser_state.splits sum.splits)
  with assms(3,4,5) have "hd bs' = hd bs" by (cases bs; cases bs') simp_all
  with False assms(1) show ?thesis
    by (auto simp: advance_def split: parser_state.splits)
qed

lemma advance_error_agree:
  assumes "advance p bs = Inl e" and "bs \<noteq> []" and "bs' \<noteq> []" and "hd bs' = hd bs"
  shows "advance p bs' = Inl e"
  using assms by (auto simp: advance_def Let_def split: parser_state.splits)

lemma commit_state:
  assumes "commit p (p2, evs) = (p3, ev2)" and "\<not> stopped p3"
  shows "p3 = p2"
  using commit_cases [OF assms(1)] assms(2) by (auto simp: stopped_def fail_def)

lemma feed_loop_stopped: "stopped p \<Longrightarrow> feed_loop p bs = (p, [], 0)"
  by (simp add: feed_loop_stop resolve_def)

lemma resolve_of_error: "state p = Error \<Longrightarrow> resolve p = (p, [])"
  by (simp add: resolve_def stopped_def)

text \<open>Without an error, a pause or an upgrade, every byte of the input is consumed.\<close>

lemma feed_loop_all:
  assumes "feed_loop p bs = (p', evs, n)" and "\<not> stopped p'"
  shows "n = length bs"
  using assms
proof (induction p bs arbitrary: p' evs n rule: feed_loop_induct)
  case (stop p bs p1 ev1)
  then show ?case by (auto simp: feed_loop_stop)
next
  case (error p bs p1 ev1 e)
  then show ?case by (auto simp: feed_loop_error fail_def stopped_def)
next
  case (go p bs p1 ev1 p2 evs' m p3 ev2)
  obtain p4 ev3 k where f: "feed_loop p3 (drop m bs) = (p4, ev3, k)"
    by (cases "feed_loop p3 (drop m bs)")
  from feed_loop_go [OF go(1-5) f] go.prems(1) have r: "p' = p4" "n = m + k" by simp_all
  from go.IH [OF f] go.prems(2) r(1) have "k = length (drop m bs)" by simp
  with r go(7) show ?case by simp
qed

text \<open>The bytes counted as consumed are a prefix of the input. Fed alone, this prefix gives
  the same parser, the same callbacks and the same count, unless the byte after it is one
  that the step rejects: then the prefix alone gives the parser before the error.\<close>

lemma feed_loop_prefix:
  assumes "feed_loop p bs = (p', evs, n)"
  shows "feed_loop p (take n bs) = (p', evs, n)
       \<or> (n < length bs \<and>
          (\<exists>q e. feed_loop p (take n bs) = (q, evs, n) \<and> \<not> stopped q
                \<and> step q (bs ! n) = Inl e \<and> p' = fail q e \<and> e \<noteq> CallbackAborted
                \<and> e \<noteq> Paused))"
  using assms
proof (induction p bs arbitrary: p' evs n rule: feed_loop_induct)
  case (stop p bs p1 ev1)
  then show ?case by (simp add: feed_loop_stop)
next
  case (error p bs p1 ev1 e)
  from feed_loop_error [OF error(1-4)] error.prems
  have r: "p' = fail p1 e" "evs = ev1" "n = 0" by simp_all
  from error(3) have h: "hd bs = bs ! 0" by (cases bs) simp_all
  from error(1) have "feed_loop p (take 0 bs) = (p1, ev1, 0)" by (simp add: feed_loop_stop)
  with r advance_error [OF error(4)] h error(2,3) show ?case by auto
next
  case (go p bs p1 ev1 p2 evs' m p3 ev2)
  obtain p4 ev3 k where f: "feed_loop p3 (drop m bs) = (p4, ev3, k)"
    by (cases "feed_loop p3 (drop m bs)")
  from feed_loop_go [OF go(1-5) f] go.prems
  have r: "p' = p4" "evs = ev1 @ ev2 @ ev3" "n = m + k" by simp_all
  from feed_loop_consumed_le [of p3 "drop m bs"] f have k: "m + k \<le> length bs"
    using go(7) by simp
  have a: "advance p1 (take (m + k) bs) = Inr (p2, evs', m)"
    using go(4,6) k by (intro advance_take) simp_all
  have ne: "take (m + k) bs \<noteq> []" using go(3,6) by (cases bs) simp_all
  have d: "drop m (take (m + k) bs) = take k (drop m bs)"
    by (simp add: drop_take)
  have lift: "feed_loop p (take (m + k) bs) = (q, ev1 @ ev2 @ ev3, m + k)"
    if "feed_loop p3 (take k (drop m bs)) = (q, ev3, k)" for q
    using feed_loop_go [OF go(1,2) ne a go(5)] that d by simp
  from go.IH [OF f]
  consider "feed_loop p3 (take k (drop m bs)) = (p4, ev3, k)"
    | q e where "k < length (drop m bs)" "feed_loop p3 (take k (drop m bs)) = (q, ev3, k)"
        "\<not> stopped q" "step q (drop m bs ! k) = Inl e" "p4 = fail q e"
        "e \<noteq> CallbackAborted" "e \<noteq> Paused"
    by blast
  then show ?case
  proof cases
    case 1
    from lift [OF 1] r show ?thesis by simp
  next
    case 2
    from 2(1) have mk: "m + k < length bs" by simp
    then have "drop m bs ! k = bs ! (m + k)" by simp
    with lift [OF 2(2)] 2 r mk show ?thesis by auto
  qed
qed

text \<open>When the count is less than the length of the input, the bytes after the first one that
  is not counted have no part in the result.\<close>

lemma feed_loop_tail:
  assumes "feed_loop p bs = (p', evs, n)" and "n < length bs"
  shows "feed_loop p (take (Suc n) bs @ cs) = (p', evs, n)"
  using assms
proof (induction p bs arbitrary: p' evs n rule: feed_loop_induct)
  case (stop p bs p1 ev1)
  from feed_loop_stop [OF stop(1,2)] stop.prems have r: "p' = p1" "evs = ev1" "n = 0" by simp_all
  from stop(2) stop.prems(2) have "stopped p1" by auto
  with stop(1) r show ?case by (simp add: feed_loop_stop)
next
  case (error p bs p1 ev1 e)
  from feed_loop_error [OF error(1-4)] error.prems
  have r: "p' = fail p1 e" "evs = ev1" "n = 0" by simp_all
  have ne: "take (Suc 0) bs @ cs \<noteq> []" using error(3) by (cases bs) simp_all
  have "hd (take (Suc 0) bs @ cs) = hd bs" using error(3) by (cases bs) simp_all
  from advance_error_agree [OF error(4,3) ne this]
  have "advance p1 (take (Suc 0) bs @ cs) = Inl e" .
  from feed_loop_error [OF error(1,2) ne this]
  show ?case unfolding r .
next
  case (go p bs p1 ev1 p2 evs' m p3 ev2)
  obtain p4 ev3 k where f: "feed_loop p3 (drop m bs) = (p4, ev3, k)"
    by (cases "feed_loop p3 (drop m bs)")
  from feed_loop_go [OF go(1-5) f] go.prems(1)
  have r: "p' = p4" "evs = ev1 @ ev2 @ ev3" "n = m + k" by simp_all
  from go.prems(2) r have k: "k < length (drop m bs)" and m: "m < length bs" by simp_all
  let ?bs' = "take (Suc (m + k)) bs @ cs"
  have a: "advance p1 ?bs' = Inr (p2, evs', m)"
    using m by (intro advance_agree [OF go(4,6)]) simp_all
  have ne: "?bs' \<noteq> []" using go(3) by (cases bs) simp_all
  have d: "drop m ?bs' = take (Suc k) (drop m bs) @ cs"
    using m k by (simp add: drop_take)
  from go.IH [OF f k] have "feed_loop p3 (drop m ?bs') = (p4, ev3, k)" unfolding d .
  from feed_loop_go [OF go(1,2) ne a go(5) this]
  show ?case unfolding r .
qed

text \<open>When the parser stops before the end of the input for another reason than a byte that
  the step rejects, none of the bytes that are not counted has a part in the result.\<close>

lemma feed_loop_tail_stopped:
  assumes "feed_loop p bs = (p', evs, n)" and "n < length bs"
    and "state p' = Error \<longrightarrow> failure p' = Some CallbackAborted \<or> state p = Error"
  shows "feed_loop p (take n bs @ cs) = (p', evs, n)"
  using assms
proof (induction p bs arbitrary: p' evs n rule: feed_loop_induct)
  case (stop p bs p1 ev1)
  from feed_loop_stop [OF stop(1,2)] stop.prems(1) have r: "p' = p1" "evs = ev1" "n = 0"
    by simp_all
  from stop(2) stop.prems(2) have "stopped p1" by auto
  with stop(1) r show ?case by (simp add: feed_loop_stop)
next
  case (error p bs p1 ev1 e)
  from feed_loop_error [OF error(1-4)] error.prems(1) have r: "p' = fail p1 e" by simp
  have "state p \<noteq> Error"
  proof
    assume "state p = Error"
    with error(1) have "p1 = p" by (simp add: resolve_of_error)
    with \<open>state p = Error\<close> error(2) show False by (simp add: stopped_def)
  qed
  with error.prems(3) r advance_error [OF error(4)] show ?case by (simp add: fail_def)
next
  case (go p bs p1 ev1 p2 evs' m p3 ev2)
  obtain p4 ev3 k where f: "feed_loop p3 (drop m bs) = (p4, ev3, k)"
    by (cases "feed_loop p3 (drop m bs)")
  from feed_loop_go [OF go(1-5) f] go.prems(1)
  have r: "p' = p4" "evs = ev1 @ ev2 @ ev3" "n = m + k" by simp_all
  from go.prems(2) r have k: "k < length (drop m bs)" and m: "m < length bs" by simp_all
  have pe: "state p \<noteq> Error"
  proof
    assume "state p = Error"
    with go(1) have "p1 = p" by (simp add: resolve_of_error)
    with \<open>state p = Error\<close> go(2) show False by (simp add: stopped_def)
  qed
  with go.prems(3) r have c: "state p4 = Error \<longrightarrow> failure p4 = Some CallbackAborted \<or> state p3 = Error"
    by simp
  let ?bs' = "take (m + k) bs @ cs"
  have a: "advance p1 ?bs' = Inr (p2, evs', m)"
    using m by (intro advance_agree [OF go(4,6)]) simp_all
  have ne: "?bs' \<noteq> []" using go(3,6) by (cases bs) simp_all
  have d: "drop m ?bs' = take k (drop m bs) @ cs"
    using m k by (simp add: drop_take)
  from go.IH [OF f k c] have "feed_loop p3 (drop m ?bs') = (p4, ev3, k)" unfolding d .
  from feed_loop_go [OF go(1,2) ne a go(5) this]
  show ?case unfolding r .
qed


section \<open>The message parser: whole lines\<close>

lemma prepend_prepend [simp]: "prepend e1 n1 (prepend e2 n2 r) = prepend (e1 @ e2) (n1 + n2) r"
  by (cases r) (simp add: prepend_def)

lemma prepend_nil [simp]: "prepend [] 0 r = r"
  by (cases r) (simp add: prepend_def)

lemma deliver_accepted: "\<forall>e \<in> set evs. s e = Continue \<Longrightarrow> deliver s evs = (evs, Continue)"
  by (induction evs) simp_all

lemma commit_accepts:
  assumes "accepts p E" and "set evs \<subseteq> E"
  shows "commit p (p', evs) = (p', evs)"
proof -
  from assms have "\<forall>e \<in> set evs. sink p e = Continue" by (auto simp: accepts_def)
  then show ?thesis by (simp add: commit_def deliver_accepted)
qed

lemma continues_accepts: "continues p \<Longrightarrow> accepts p E"
  by (simp add: continues_def accepts_def)

lemma commit_continues: "continues p \<Longrightarrow> commit p (p', evs) = (p', evs)"
  by (rule commit_accepts [OF continues_accepts [of p UNIV]]) simp_all

lemma resolve_byte_state: "byte_state (state p) \<Longrightarrow> resolve p = (p, [])"
  by (auto simp: resolve_def byte_state_def split: parser_state.splits)

lemma advance_byte_state:
  "byte_state (state p) \<Longrightarrow> advance p (c # rest) = (case step p c of Inl e \<Rightarrow> Inl e | Inr (p', evs) \<Rightarrow> Inr (p', evs, 1))"
  by (auto simp: advance_def byte_state_def split: parser_state.splits)

lemma feed_loop_byte:
  assumes "accepts p E" and "\<not> stopped p" and "byte_state (state p)"
    and "step p c = Inr (p', evs)" and "set evs \<subseteq> E"
  shows "feed_loop p (c # rest) = prepend evs 1 (feed_loop p' rest)"
proof -
  obtain q ev k where f: "feed_loop p' (drop 1 (c # rest)) = (q, ev, k)"
    by (cases "feed_loop p' (drop 1 (c # rest))")
  have a: "advance p (c # rest) = Inr (p', evs, 1)"
    using assms(3,4) by (simp add: advance_byte_state)
  from feed_loop_go [OF resolve_byte_state [OF assms(3)] assms(2) _ a commit_accepts [OF assms(1,5)] f]
  show ?thesis using f by (simp add: prepend_def)
qed

lemma feed_loop_byte_error:
  assumes "\<not> stopped p" and "byte_state (state p)" and "step p c = Inl e"
  shows "feed_loop p (c # rest) = (fail p e, [], 0)"
proof -
  have a: "advance p (c # rest) = Inl e"
    using assms(2,3) by (simp add: advance_byte_state)
  from feed_loop_error [OF resolve_byte_state [OF assms(2)] assms(1) _ a]
  show ?thesis by simp
qed

lemma not_stopped_simps:
  "\<not> paused p \<Longrightarrow> state p = StartLine \<Longrightarrow> \<not> stopped p"
  "\<not> paused p \<Longrightarrow> state p = HeaderField \<Longrightarrow> \<not> stopped p"
  "\<not> paused p \<Longrightarrow> state p = HeaderValue \<Longrightarrow> \<not> stopped p"
  "\<not> paused p \<Longrightarrow> state p = Trailer \<Longrightarrow> \<not> stopped p"
  "\<not> paused p \<Longrightarrow> state p = BodyChunked \<Longrightarrow> \<not> stopped p"
  "\<not> paused p \<Longrightarrow> state p = ChunkSize \<Longrightarrow> \<not> stopped p"
  "\<not> paused p \<Longrightarrow> state p = ChunkExtension \<Longrightarrow> \<not> stopped p"
  "\<not> paused p \<Longrightarrow> state p = ChunkCRLF \<Longrightarrow> \<not> stopped p"
  "\<not> paused p \<Longrightarrow> state p = ChunkData \<Longrightarrow> \<not> stopped p"
  "\<not> paused p \<Longrightarrow> state p = BodyContentLength \<Longrightarrow> \<not> stopped p"
  "\<not> paused p \<Longrightarrow> state p = BodyIdentity \<Longrightarrow> \<not> stopped p"
  "\<not> paused p \<Longrightarrow> state p = HeadersComplete \<Longrightarrow> \<not> stopped p"
  by (simp_all add: stopped_def)

text \<open>Bytes of a start line that is not yet complete go to the buffer.\<close>

lemma feed_loop_start_line_bytes:
  assumes "accepts p E" and "\<not> paused p" and "state p = StartLine"
    and "\<not> ends_with_CR (buffer p)" and "CR \<notin> set cs" and "LF \<notin> set cs"
    and "length (buffer p) + length cs \<le> max_token p"
  shows "feed_loop p (cs @ rest) = prepend [] (length cs) (feed_loop (p\<lparr>buffer := buffer p @ cs\<rparr>) rest)"
  using assms
proof (induction cs arbitrary: p)
  case Nil
  then show ?case by simp
next
  case (Cons c cs)
  let ?q = "p\<lparr>buffer := buffer p @ [c]\<rparr>"
  have s: "step p c = Inr (?q, [])"
    using Cons.prems by (auto simp: step_def step_start_line_def append_byte_def ends_with_CR_def)
  have b: "byte_state (state p)" using Cons.prems(3) by (simp add: byte_state_def)
  have ns: "\<not> stopped p" using Cons.prems(2,3) by (simp add: stopped_def)
  have 1: "feed_loop p (c # cs @ rest) = prepend [] 1 (feed_loop ?q (cs @ rest))"
    using feed_loop_byte [OF Cons.prems(1) ns b s] by simp
  have 2: "feed_loop ?q (cs @ rest)
            = prepend [] (length cs) (feed_loop (?q\<lparr>buffer := buffer ?q @ cs\<rparr>) rest)"
    using Cons.prems by (intro Cons.IH) (auto simp: accepts_def ends_with_CR_def)
  show ?case using 1 2 by simp
qed

lemma feed_loop_start_line:
  assumes "accepts p E" and "\<not> paused p" and "state p = StartLine" and "buffer p = []"
    and "CR \<notin> set line" and "LF \<notin> set line" and "length line < max_token p"
    and "finish_start_line p line = Inr (p', evs)" and "set evs \<subseteq> E"
  shows "feed_loop p (line @ CR # LF # rest) = prepend evs (length line + 2) (feed_loop p' rest)"
proof -
  let ?q = "p\<lparr>buffer := line\<rparr>"
  let ?r = "p\<lparr>buffer := line @ [CR]\<rparr>"
  have 1: "feed_loop p (line @ CR # LF # rest) = prepend [] (length line) (feed_loop ?q (CR # LF # rest))"
    using feed_loop_start_line_bytes [where p = p and cs = line and rest = "CR # LF # rest"] assms
    by (simp add: ends_with_CR_def)
  have q: "accepts ?q E" "\<not> stopped ?q" "byte_state (state ?q)"
    using assms by (simp_all add: accepts_def stopped_def byte_state_def)
  have "\<not> ends_with_CR line" using assms(5) by (metis ends_with_CR_def last_in_set)
  then have sq: "step ?q CR = Inr (?r, [])"
    using assms(3,7) by (simp add: step_def step_start_line_def append_byte_def CR_def LF_def)
  have r: "accepts ?r E" "\<not> stopped ?r" "byte_state (state ?r)"
    using assms by (simp_all add: accepts_def stopped_def byte_state_def)
  have "finish_start_line ?r line = finish_start_line p line"
    by (simp add: finish_start_line_def split: parser_kind.splits option.splits)
  then have sr: "step ?r LF = Inr (p', evs)"
    using assms(3,8) by (simp add: step_def step_start_line_def ends_with_CR_def)
  show ?thesis
    by (simp add: 1 feed_loop_byte [OF q sq] feed_loop_byte [OF r sr assms(9)])
qed


lemma not_tchar [simp]: "\<not> is_tchar CR" "\<not> is_tchar LF" "\<not> is_tchar (CHR '':'')"
  "\<not> is_tchar SP" "\<not> is_tchar HT"
  by (simp_all add: is_tchar_def is_alpha_def is_digit_def CR_def LF_def SP_def HT_def)

text \<open>Bytes of a header name go to the buffer.\<close>

lemma feed_loop_header_name_bytes:
  assumes "accepts p E" and "\<not> paused p" and "state p = HeaderField \<or> state p = Trailer"
    and "\<forall>x \<in> set (buffer p). is_tchar x" and "\<forall>x \<in> set cs. is_tchar x"
    and "length (buffer p) + length cs \<le> max_token p"
  shows "feed_loop p (cs @ rest) = prepend [] (length cs) (feed_loop (p\<lparr>buffer := buffer p @ cs\<rparr>) rest)"
  using assms
proof (induction cs arbitrary: p)
  case Nil
  then show ?case by simp
next
  case (Cons c cs)
  let ?q = "p\<lparr>buffer := buffer p @ [c]\<rparr>"
  have nb: "buffer p \<noteq> [CR]" using Cons.prems(4) by auto
  have c: "is_tchar c" "c \<noteq> CR" "c \<noteq> CHR '':''" using Cons.prems(5) by auto
  have s: "step p c = Inr (?q, [])"
    using Cons.prems(3,6) nb c by (auto simp: step_def step_header_field_def append_byte_def)
  have b: "byte_state (state p)" using Cons.prems(3) by (auto simp: byte_state_def)
  have ns: "\<not> stopped p" using Cons.prems(2,3) by (auto simp: stopped_def)
  have 1: "feed_loop p (c # cs @ rest) = prepend [] 1 (feed_loop ?q (cs @ rest))"
    using feed_loop_byte [OF Cons.prems(1) ns b s] by simp
  have 2: "feed_loop ?q (cs @ rest)
            = prepend [] (length cs) (feed_loop (?q\<lparr>buffer := buffer ?q @ cs\<rparr>) rest)"
    using Cons.prems by (intro Cons.IH) (auto simp: accepts_def)
  show ?case using 1 2 by simp
qed

text \<open>Bytes of a header value go to the buffer.\<close>

lemma feed_loop_header_value_bytes:
  assumes "accepts p E" and "\<not> paused p" and "state p = HeaderValue"
    and "\<not> ends_with_CR (buffer p)" and "CR \<notin> set cs" and "LF \<notin> set cs"
    and "length (buffer p) + length cs \<le> max_token p"
  shows "feed_loop p (cs @ rest) = prepend [] (length cs) (feed_loop (p\<lparr>buffer := buffer p @ cs\<rparr>) rest)"
  using assms
proof (induction cs arbitrary: p)
  case Nil
  then show ?case by simp
next
  case (Cons c cs)
  let ?q = "p\<lparr>buffer := buffer p @ [c]\<rparr>"
  have s: "step p c = Inr (?q, [])"
    using Cons.prems by (auto simp: step_def step_header_value_def append_byte_def)
  have b: "byte_state (state p)" using Cons.prems(3) by (simp add: byte_state_def)
  have ns: "\<not> stopped p" using Cons.prems(2,3) by (simp add: stopped_def)
  have 1: "feed_loop p (c # cs @ rest) = prepend [] 1 (feed_loop ?q (cs @ rest))"
    using feed_loop_byte [OF Cons.prems(1) ns b s] by simp
  have 2: "feed_loop ?q (cs @ rest)
            = prepend [] (length cs) (feed_loop (?q\<lparr>buffer := buffer ?q @ cs\<rparr>) rest)"
    using Cons.prems by (intro Cons.IH) (auto simp: accepts_def ends_with_CR_def)
  show ?case using 1 2 by simp
qed

text \<open>A header line up to its CR: the parser holds the name and the raw value.\<close>

lemma feed_loop_header_line_prefix:
  assumes "accepts p E" and "\<not> paused p" and "state p = HeaderField \<or> state p = Trailer"
    and "buffer p = []" and "name \<noteq> []" and "\<forall>x \<in> set name. is_tchar x"
    and "length name \<le> max_token p" and "CR \<notin> set raw" and "LF \<notin> set raw"
    and "length raw < max_token p"
  shows "feed_loop p (name @ CHR '':'' # raw @ CR # rest)
         = prepend [] (Suc (Suc (length name + length raw)))
             (feed_loop (p\<lparr>state := HeaderValue, field_name := name, buffer := raw @ [CR]\<rparr>) rest)"
proof -
  let ?a = "p\<lparr>buffer := name\<rparr>"
  let ?b = "p\<lparr>state := HeaderValue, field_name := name, buffer := []\<rparr>"
  let ?c = "p\<lparr>state := HeaderValue, field_name := name, buffer := raw\<rparr>"
  let ?d = "p\<lparr>state := HeaderValue, field_name := name, buffer := raw @ [CR]\<rparr>"
  have 1: "feed_loop p (name @ CHR '':'' # raw @ CR # rest)
           = prepend [] (length name) (feed_loop ?a (CHR '':'' # raw @ CR # rest))"
    using feed_loop_header_name_bytes [where p = p and cs = name and rest = "CHR '':'' # raw @ CR # rest"] assms by simp
  have a: "accepts ?a E" "\<not> stopped ?a" "byte_state (state ?a)"
    using assms by (auto simp: accepts_def stopped_def byte_state_def)
  have nb: "name \<noteq> [CR]" using assms(6) by auto
  have sa: "step ?a (CHR '':'') = Inr (?b, [])"
    using assms(3,5) nb by (auto simp: step_def step_header_field_def CR_def)
  have 2: "feed_loop ?b (raw @ CR # rest) = prepend [] (length raw) (feed_loop ?c (CR # rest))"
    using feed_loop_header_value_bytes [where p = ?b and cs = raw and rest = "CR # rest"] assms
    by (simp add: accepts_def ends_with_CR_def)
  have c: "accepts ?c E" "\<not> stopped ?c" "byte_state (state ?c)"
    using assms by (auto simp: accepts_def stopped_def byte_state_def)
  have "\<not> ends_with_CR raw" using assms(8) by (metis ends_with_CR_def last_in_set)
  then have sc: "step ?c CR = Inr (?d, [])"
    using assms(10) by (simp add: step_def step_header_value_def append_byte_def CR_def LF_def)
  show ?thesis
    by (simp add: 1 feed_loop_byte [OF a sa] 2 feed_loop_byte [OF c sc])
qed

text \<open>A complete header line that the parser accepts.\<close>

lemma feed_loop_header_line:
  assumes "accepts p E" and "\<not> paused p" and "state p = HeaderField \<or> state p = Trailer"
    and "buffer p = []" and "name \<noteq> []" and "\<forall>x \<in> set name. is_tchar x"
    and "length name \<le> max_token p" and "CR \<notin> set raw" and "LF \<notin> set raw"
    and "length raw < max_token p"
    and "recognize (ctx p) name (trim raw) = Inr m" and "OnHeader name (trim raw) \<in> E"
  shows "feed_loop p (name @ CHR '':'' # raw @ CR # LF # rest)
         = prepend [OnHeader name (trim raw)] (Suc (Suc (Suc (length name + length raw))))
             (feed_loop (p\<lparr>state := (if trailing m then Trailer else HeaderField), buffer := [],
                            field_name := [], ctx := m\<rparr>) rest)"
proof -
  let ?d = "p\<lparr>state := HeaderValue, field_name := name, buffer := raw @ [CR]\<rparr>"
  let ?e = "p\<lparr>state := (if trailing m then Trailer else HeaderField), buffer := [],
               field_name := [], ctx := m\<rparr>"
  have d: "accepts ?d E" "\<not> stopped ?d" "byte_state (state ?d)"
    using assms by (auto simp: accepts_def stopped_def byte_state_def)
  have sd: "step ?d LF = Inr (?e, [OnHeader name (trim raw)])"
    using assms(11) by (simp add: step_def step_header_value_def ends_with_CR_def finish_header_def)
  show ?thesis
    using feed_loop_header_line_prefix [OF assms(1-10), where rest = "LF # rest"] assms(12)
    by (simp add: feed_loop_byte [OF d sd])
qed

text \<open>A complete header line that the parser rejects: the LF is the byte at fault.\<close>

lemma feed_loop_header_line_error:
  assumes "accepts p E" and "\<not> paused p" and "state p = HeaderField \<or> state p = Trailer"
    and "buffer p = []" and "name \<noteq> []" and "\<forall>x \<in> set name. is_tchar x"
    and "length name \<le> max_token p" and "CR \<notin> set raw" and "LF \<notin> set raw"
    and "length raw < max_token p"
    and "recognize (ctx p) name (trim raw) = Inl e"
  shows "feed_loop p (name @ CHR '':'' # raw @ CR # LF # rest)
         = (fail (p\<lparr>state := HeaderValue, field_name := name, buffer := raw @ [CR]\<rparr>) e, [],
            Suc (Suc (length name + length raw)))"
proof -
  let ?d = "p\<lparr>state := HeaderValue, field_name := name, buffer := raw @ [CR]\<rparr>"
  have d: "\<not> stopped ?d" "byte_state (state ?d)"
    using assms by (auto simp: stopped_def byte_state_def)
  have sd: "step ?d LF = Inl e"
    using assms(11) by (simp add: step_def step_header_value_def ends_with_CR_def finish_header_def)
  show ?thesis
    using feed_loop_header_line_prefix [OF assms(1-10), where rest = "LF # rest"]
    by (simp add: feed_loop_byte_error [OF d sd] prepend_def)
qed


lemma resolve_stopped: "stopped p \<Longrightarrow> resolve p = (p, [])"
  by (simp add: resolve_def)

lemma resolve_after_headers:
  assumes "after_headers p = (p', evs)"
  shows "resolve p' = (p', [])"
proof -
  from assms have "state p' = MessageComplete \<or> state p' = BodyChunked \<or> state p' = BodyIdentity
      \<or> (state p' = BodyContentLength \<and> 0 < remaining (ctx p'))"
    by (auto simp: after_headers_def split: if_splits)
  then show ?thesis by (auto simp: resolve_def)
qed

lemma resolve_commit:
  assumes "commit p (p', evs) = (q, d)" and "resolve p' = (p', [])"
  shows "resolve q = (q, [])"
proof -
  from commit_cases [OF assms(1)]
  consider "q = p'" | "q = p'\<lparr>paused := True\<rparr>" | "q = fail p' CallbackAborted" by blast
  then show ?thesis
  proof cases
    case 1
    with assms(2) show ?thesis by simp
  next
    case 2
    then show ?thesis by (simp add: resolve_stopped stopped_def)
  next
    case 3
    then show ?thesis by (simp add: resolve_stopped stopped_def fail_def)
  qed
qed

text \<open>The transitions that need no byte are made once.\<close>

lemma resolve_idem:
  assumes "resolve p = (p1, ev1)"
  shows "resolve p1 = (p1, [])"
proof (cases "stopped p")
  case True
  with assms show ?thesis by (simp add: resolve_def)
next
  case False
  show ?thesis
  proof (cases "state p = HeadersComplete")
    case True
    obtain p' evs where a: "after_headers p = (p', evs)" by (cases "after_headers p")
    obtain q d where c: "commit p (p', evs) = (q, d)" by (cases "commit p (p', evs)")
    from assms False True a c have "p1 = q" by (simp add: resolve_def)
    with resolve_commit [OF c resolve_after_headers [OF a]] show ?thesis by simp
  next
    case nh: False
    show ?thesis
    proof (cases "state p = BodyContentLength \<and> remaining (ctx p) = 0")
      case True
      let ?p' = "p\<lparr>state := MessageComplete\<rparr>"
      obtain q d where c: "commit p (?p', [OnMessageComplete]) = (q, d)"
        by (cases "commit p (?p', [OnMessageComplete])")
      have r: "resolve ?p' = (?p', [])" by (simp add: resolve_def)
      from assms False True c have "p1 = q" by (simp add: resolve_def)
      with resolve_commit [OF c r] show ?thesis by simp
    next
      case nb: False
      show ?thesis
      proof (cases "state p = ChunkData \<and> chunk_remaining (chunk p) = 0")
        case True
        with assms False have "p1 = p\<lparr>state := ChunkCRLF\<rparr>" by (simp add: resolve_def)
        then show ?thesis by (simp add: resolve_def)
      next
        case False
        with assms nh nb \<open>\<not> stopped p\<close> have "p1 = p"
          by (auto simp: resolve_def split: parser_state.splits if_splits)
        with False nh nb \<open>\<not> stopped p\<close> show ?thesis
          by (auto simp: resolve_def split: parser_state.splits)
      qed
    qed
  qed
qed

lemma feed_loop_resolve:
  assumes "resolve p = (p1, ev1)"
  shows "feed_loop p bs = prepend ev1 0 (feed_loop p1 bs)"
proof -
  have "feed_loop p bs = (case resolve p of (q, ev) \<Rightarrow> prepend ev 0 (feed_loop q bs))"
    by (subst (1 2) feed_loop.simps)
       (simp add: resolve_idem prepend_def split: prod.splits sum.splits)
  with assms show ?thesis by simp
qed

text \<open>The blank line that ends the headers, and the transition that follows it.\<close>

lemma feed_loop_blank_line:
  assumes "accepts p E" and "\<not> paused p" and "state p = HeaderField" and "buffer p = []"
    and "\<not> trailing (ctx p)" and "after_headers (p\<lparr>state := HeadersComplete\<rparr>) = (p', evs)"
    and "OnHeadersComplete \<in> E" and "set evs \<subseteq> E"
  shows "feed_loop p (CR # LF # rest) = prepend (OnHeadersComplete # evs) (Suc (Suc 0)) (feed_loop p' rest)"
proof -
  let ?a = "p\<lparr>buffer := [CR]\<rparr>"
  let ?b = "p\<lparr>state := HeadersComplete\<rparr>"
  have p: "\<not> stopped p" "byte_state (state p)"
    using assms by (auto simp: stopped_def byte_state_def)
  have sp: "step p CR = Inr (?a, [])"
    using assms by (simp add: step_def step_header_field_def)
  have a: "accepts ?a E" "\<not> stopped ?a" "byte_state (state ?a)"
    using assms by (auto simp: accepts_def stopped_def byte_state_def)
  have "?a\<lparr>state := HeadersComplete, buffer := []\<rparr> = ?b" using assms(4) by simp
  then have sa: "step ?a LF = Inr (?b, [OnHeadersComplete])"
    using assms by (simp add: step_def step_header_field_def end_of_headers_def)
  have "accepts ?b E" using assms(1) by (simp add: accepts_def)
  then have "resolve ?b = (p', evs)"
    using assms(2,6,8) by (simp add: resolve_def stopped_def commit_accepts)
  then have 3: "feed_loop ?b rest = prepend evs 0 (feed_loop p' rest)"
    by (rule feed_loop_resolve)
  show ?thesis
    using assms(7) by (simp add: feed_loop_byte [OF assms(1) p sp] feed_loop_byte [OF a sa] 3)
qed

text \<open>A content-length body that the input holds in full.\<close>

lemma feed_loop_body:
  assumes "accepts p E" and "\<not> paused p" and "state p = BodyContentLength"
    and "remaining (ctx p) = length body" and "body \<noteq> []"
    and "OnBody body \<in> E" and "OnMessageComplete \<in> E"
  shows "feed_loop p (body @ rest)
         = prepend [OnBody body, OnMessageComplete] (length body)
             (feed_loop (p\<lparr>ctx := (ctx p)\<lparr>remaining := 0\<rparr>, state := MessageComplete\<rparr>) rest)"
proof -
  let ?a = "p\<lparr>ctx := (ctx p)\<lparr>remaining := 0\<rparr>\<rparr>"
  let ?b = "p\<lparr>ctx := (ctx p)\<lparr>remaining := 0\<rparr>, state := MessageComplete\<rparr>"
  have r: "resolve p = (p, [])" using assms by (simp add: resolve_def)
  have ns: "\<not> stopped p" using assms by (simp add: stopped_def)
  have ne: "body @ rest \<noteq> []" using assms(5) by simp
  have a: "advance p (body @ rest) = Inr (?a, [OnBody body], length body)"
    using assms by (simp add: advance_def Let_def)
  obtain q ev k where f: "feed_loop ?a (drop (length body) (body @ rest)) = (q, ev, k)"
    by (cases "feed_loop ?a (drop (length body) (body @ rest))")
  have 1: "feed_loop p (body @ rest) = prepend [OnBody body] (length body) (feed_loop ?a rest)"
    using feed_loop_go [OF r ns ne a commit_accepts [OF assms(1)] f] f assms(6)
    by (simp add: prepend_def)
  have "accepts ?a E" using assms(1) by (simp add: accepts_def)
  then have "resolve ?a = (?b, [OnMessageComplete])"
    using assms(2,3,7) by (simp add: resolve_def stopped_def commit_accepts)
  then have 2: "feed_loop ?a rest = prepend [OnMessageComplete] 0 (feed_loop ?b rest)"
    by (rule feed_loop_resolve)
  show ?thesis by (simp add: 1 2)
qed

text \<open>The end of the input with nothing left to do.\<close>

lemma feed_loop_end:
  assumes "state p = MessageComplete \<or> byte_state (state p)"
  shows "feed_loop p [] = (p, [], 0)"
proof -
  have "resolve p = (p, [])"
    using assms by (auto simp: resolve_def byte_state_def split: parser_state.splits)
  then show ?thesis by (simp add: feed_loop_stop)
qed

text \<open>A run of body bytes whose callback aborts: the bytes are consumed, and the parser ends in
  \<open>Error\<close>.\<close>

lemma feed_loop_body_abort:
  assumes "\<not> paused p" and "state p = BodyContentLength"
    and "remaining (ctx p) = length body" and "body \<noteq> []" and "sink p (OnBody body) = Abort"
  shows "feed_loop p (body @ rest)
         = (fail (p\<lparr>ctx := (ctx p)\<lparr>remaining := 0\<rparr>\<rparr>) CallbackAborted, [OnBody body], length body)"
proof -
  let ?a = "p\<lparr>ctx := (ctx p)\<lparr>remaining := 0\<rparr>\<rparr>"
  have r: "resolve p = (p, [])" using assms by (simp add: resolve_def)
  have ns: "\<not> stopped p" using assms by (simp add: stopped_def)
  have ne: "body @ rest \<noteq> []" using assms(4) by simp
  have a: "advance p (body @ rest) = Inr (?a, [OnBody body], length body)"
    using assms by (simp add: advance_def Let_def)
  have c: "commit p (?a, [OnBody body]) = (fail ?a CallbackAborted, [OnBody body])"
    using assms(5) by (simp add: commit_def)
  have "stopped (fail ?a CallbackAborted)" by (simp add: stopped_def fail_def)
  then have f: "feed_loop (fail ?a CallbackAborted) (drop (length body) (body @ rest))
                = (fail ?a CallbackAborted, [], 0)"
    by (rule feed_loop_stopped)
  from feed_loop_go [OF r ns ne a c f] show ?thesis by simp
qed


section \<open>The message parser: the state \<open>Error\<close>\<close>

lemma resolve_error_has_reason:
  assumes "resolve p = (p1, ev1)" and "error_has_reason p"
  shows "error_has_reason p1"
proof (cases "state p = Error")
  case True
  with assms show ?thesis by (simp add: resolve_def stopped_def)
next
  case False
  show ?thesis
  proof (cases "state p1 = Error")
    case True
    with resolve_error [OF assms(1) False] show ?thesis by (simp add: error_has_reason_def)
  next
    case False
    then show ?thesis by (simp add: error_has_reason_def)
  qed
qed

lemma feed_loop_error_has_reason:
  "error_has_reason p \<Longrightarrow> error_has_reason (fst (feed_loop p bs))"
proof (induction p bs rule: feed_loop_induct)
  case (stop p bs p1 ev1)
  with resolve_error_has_reason [OF stop(1)] show ?case by (simp add: feed_loop_stop)
next
  case (error p bs p1 ev1 e)
  with advance_error [OF error(4)] show ?case
    by (simp add: feed_loop_error error_has_reason_def fail_def)
next
  case (go p bs p1 ev1 p2 evs n p3 ev2)
  obtain p4 ev3 k where f: "feed_loop p3 (drop n bs) = (p4, ev3, k)"
    by (cases "feed_loop p3 (drop n bs)")
  have "state p1 \<noteq> Error" using go(2) by (simp add: stopped_def)
  with advance_frame [OF go(4)] have "state p2 \<noteq> Error" by simp
  with commit_cases [OF go(5)] have "error_has_reason p3"
    by (auto simp: error_has_reason_def fail_def)
  with go.IH f show ?case by (simp add: feed_loop_go [OF go(1-5) f])
qed

lemma reachable_error_has_reason: "reachable p \<Longrightarrow> error_has_reason p"
proof (induction rule: reachable.induct)
  case (constructed k s bound hd_resp)
  show ?case by (simp add: error_has_reason_def new_parser_def)
next
  case (fed p bs p' evs n r)
  show ?case
  proof (cases "state p = Error \<or> paused p")
    case True
    with fed show ?thesis by (auto simp: feed_def split: if_splits)
  next
    case False
    with fed(2) have "p' = fst (feed_loop p bs)" by (auto simp: feed_def split: prod.splits)
    with feed_loop_error_has_reason [OF fed.IH] show ?thesis by simp
  qed
next
  case (was_reset p)
  show ?case by (simp add: error_has_reason_def reset_def)
next
  case (was_paused p)
  then show ?case by (simp add: error_has_reason_def pause_def)
next
  case (was_resumed p)
  then show ?case by (simp add: error_has_reason_def resume_def)
qed

lemma feed_all_refused:
  "state p = Error \<Longrightarrow> feed_all p bss = (p, [], 0, replicate (length bss) (failure p))"
  by (induction bss) (simp_all add: feed_def)

text \<open>
  Claim C2. A parser in \<open>Error\<close> holds a reason other than \<open>Paused\<close>. Every \<open>feed\<close> is
  refused with that reason: it consumes zero bytes, invokes no callback and leaves the parser
  as it is, for any number of calls and also after \<open>pause()\<close> and \<open>resume()\<close>. Only
  \<open>reset()\<close> leaves the state: it returns to \<open>StartLine\<close> with no reason held, and \<open>feed\<close>
  is accepted again.
\<close>

theorem error_state_is_terminal:
  assumes "reachable p" and "state p = Error"
  shows "\<exists>e. failure p = Some e \<and> e \<noteq> Paused
           \<and> (\<forall>bs. feed p bs = (p, [], 0, Some e))
           \<and> (\<forall>bss. feed_all p bss = (p, [], 0, replicate (length bss) (Some e)))
           \<and> (\<forall>bs. feed (resume p) bs = (resume p, [], 0, Some e))
           \<and> (\<forall>bs. feed (pause p) bs = (pause p, [], 0, Some e))
           \<and> state (reset p) = StartLine \<and> failure (reset p) = None
           \<and> (\<not> paused p \<longrightarrow> feed (reset p) [] = (reset p, [], 0, None))"
proof -
  from reachable_error_has_reason [OF assms(1)] assms(2)
  obtain e where e: "failure p = Some e" "e \<noteq> Paused" by (auto simp: error_has_reason_def)
  have 1: "\<forall>bs. feed p bs = (p, [], 0, Some e)"
    using assms(2) e by (simp add: feed_def)
  have 2: "\<forall>bss. feed_all p bss = (p, [], 0, replicate (length bss) (Some e))"
    using feed_all_refused [OF assms(2)] e by simp
  have 3: "\<forall>bs. feed (resume p) bs = (resume p, [], 0, Some e)"
    using assms(2) e by (simp add: feed_def resume_def)
  have 4: "\<forall>bs. feed (pause p) bs = (pause p, [], 0, Some e)"
    using assms(2) e by (simp add: feed_def pause_def)
  have 5: "state (reset p) = StartLine" "failure (reset p) = None"
    by (simp_all add: reset_def)
  have 6: "\<not> paused p \<longrightarrow> feed (reset p) [] = (reset p, [], 0, None)"
  proof
    assume np: "\<not> paused p"
    have "byte_state (state (reset p))" by (simp add: reset_def byte_state_def)
    then have "feed_loop (reset p) [] = (reset p, [], 0)" by (simp add: feed_loop_end)
    with np show "feed (reset p) [] = (reset p, [], 0, None)"
      by (simp add: feed_def reset_def)
  qed
  from e 1 2 3 4 5 6 show ?thesis by blast
qed

lemma feed_line_feed:
  "feed request_parser [LF] = (broken_parser, [], 0, Some InvalidStartLine)"
proof -
  have p: "\<not> stopped request_parser" "byte_state (state request_parser)"
    by (simp_all add: request_parser_def new_parser_def stopped_def byte_state_def clear_context_def)
  have s: "step request_parser LF = Inl InvalidStartLine"
    by (simp add: step_def step_start_line_def request_parser_def new_parser_def ends_with_CR_def)
  show ?thesis
    by (simp add: feed_def feed_loop_byte_error [OF p s] broken_parser_def)
       (simp add: request_parser_def new_parser_def fail_def)
qed

lemma reachable_broken_parser: "reachable broken_parser"
  using reachable.fed [OF reachable.constructed, of Request quiet 8192 False "[LF]"]
    feed_line_feed by (simp add: request_parser_def)

text \<open>A request parser that was fed a line feed refuses the request that follows.\<close>

theorem error_state_is_terminal_witness:
  "reachable broken_parser \<and> state broken_parser = Error
   \<and> feed broken_parser ''GET / HTTP/1.1'' = (broken_parser, [], 0, Some InvalidStartLine)
   \<and> state (reset broken_parser) = StartLine
   \<and> feed (reset broken_parser) [] = (reset broken_parser, [], 0, None)"
proof -
  have s: "state broken_parser = Error" "failure broken_parser = Some InvalidStartLine"
    "\<not> paused broken_parser"
    by (simp_all add: broken_parser_def fail_def request_parser_def new_parser_def)
  from error_state_is_terminal [OF reachable_broken_parser s(1)] s reachable_broken_parser
  show ?thesis by auto
qed


section \<open>The message parser: the head of a message\<close>


section \<open>The message parser: well-formed heads\<close>

lemma parse_method_name [simp]: "parse_method (method_name m) = Some m"
  by (cases m) (simp_all add: parse_method_def)

lemma method_name_chars [simp]:
  "SP \<notin> set (method_name m)" "CR \<notin> set (method_name m)" "LF \<notin> set (method_name m)"
  by (cases m; simp add: SP_def CR_def LF_def)+

lemma method_name_length: "length (method_name m) \<le> 7"
  by (cases m) simp_all

lemma digit_cases: "n < 10 \<Longrightarrow> n = 0 \<or> n = 1 \<or> n = 2 \<or> n = 3 \<or> n = 4 \<or> n = 5 \<or> n = 6 \<or> n = 7 \<or> n = 8 \<or> n = (9::nat)"
  by arith

lemma digit_char_digit:
  assumes "n < 10"
  shows "is_digit (digit_char n)" and "digit_value (digit_char n) = n"
    and "digit_char n \<noteq> SP" and "digit_char n \<noteq> CR" and "digit_char n \<noteq> LF"
  using digit_cases [OF assms]
  by (auto simp: digit_char_def is_digit_def digit_value_def SP_def CR_def LF_def)

lemma version_text_chars:
  assumes "mj < 10" and "mn < 10"
  shows "SP \<notin> set (version_text mj mn)" "CR \<notin> set (version_text mj mn)"
    "LF \<notin> set (version_text mj mn)"
  using digit_char_digit [OF assms(1)] digit_char_digit [OF assms(2)]
  by (auto simp: version_text_def SP_def CR_def LF_def)

lemma parse_version_text:
  assumes "mj < 10" and "mn < 10"
  shows "parse_version (version_text mj mn) = Some (mj, mn)"
  using digit_char_digit [OF assms(1)] digit_char_digit [OF assms(2)]
  by (simp add: parse_version_def version_text_def)

lemma split_str_none: "c \<notin> set s \<Longrightarrow> split_str s c = [s]"
  by (induction s) auto

lemma split_str_append: "c \<notin> set a \<Longrightarrow> split_str (a @ c # b) c = a # split_str b c"
  by (induction a) auto

lemma parse_request_line_rendered:
  assumes "wf_target t" and "mj < 10" and "mn < 10"
  shows "parse_request_line (request_line m t mj mn) = Some (m, t, mj, mn)"
proof -
  have "split_str (request_line m t mj mn) SP = [method_name m, t, version_text mj mn]"
    using assms version_text_chars(1) [OF assms(2,3)]
    by (simp add: request_line_def split_str_append split_str_none wf_target_def)
  then show ?thesis
    using assms by (simp add: parse_request_line_def parse_version_text wf_target_def)
qed

lemma partition_str_append:
  "c \<notin> set a \<Longrightarrow> partition_str (a @ c # b) c = (a, [c], b)"
  by (simp add: partition_str_def takeWhile_append dropWhile_append)

lemma hundreds_tens_units: "100 * (n div 100) + 10 * (n div 10 mod 10) + n mod 10 = (n::nat)"
proof -
  have "n mod (10 * 10) = 10 * (n div 10 mod 10) + n mod 10"
    by (rule mod_mult2_eq)
  then have "n mod 100 = 10 * (n div 10 mod 10) + n mod 10" by simp
  moreover have "100 * (n div 100) + n mod 100 = n" by (rule mult_div_mod_eq)
  ultimately show ?thesis by linarith
qed

lemma status_text_digits:
  assumes "code < 1000"
  shows "length (status_text code) = 3" and "\<forall>c \<in> set (status_text code). is_digit c"
    and "decimal_value (status_text code) = code" and "SP \<notin> set (status_text code)"
    and "CR \<notin> set (status_text code)" and "LF \<notin> set (status_text code)"
proof -
  define a where "a = code div 100"
  define b where "b = code div 10 mod 10"
  define c where "c = code mod 10"
  have l: "a < 10" "b < 10" "c < 10"
  proof -
    show "a < 10" unfolding a_def using assms by (simp add: less_mult_imp_div_less)
    show "b < 10" unfolding b_def by simp
    show "c < 10" unfolding c_def by simp
  qed
  have t: "status_text code = [digit_char a, digit_char b, digit_char c]"
    by (simp add: status_text_def a_def b_def c_def)
  have v: "100 * a + 10 * b + c = code"
    unfolding a_def b_def c_def by (rule hundreds_tens_units)
  note da = digit_char_digit [OF l(1)] and db = digit_char_digit [OF l(2)]
    and dc = digit_char_digit [OF l(3)]
  show "length (status_text code) = 3" by (simp add: t)
  show "\<forall>c \<in> set (status_text code). is_digit c"
    using da(1) db(1) dc(1) by (simp add: t)
  have "decimal_value (status_text code) = 10 * (10 * a + b) + c"
    using da(2) db(2) dc(2) by (simp add: t decimal_value_def)
  with v show "decimal_value (status_text code) = code" by simp
  show "SP \<notin> set (status_text code)" using da(3) db(3) dc(3) by (simp add: t)
  show "CR \<notin> set (status_text code)" using da(4) db(4) dc(4) by (simp add: t)
  show "LF \<notin> set (status_text code)" using da(5) db(5) dc(5) by (simp add: t)
qed

lemma parse_status_line_rendered:
  assumes "code < 1000" and "mj < 10" and "mn < 10"
  shows "parse_status_line (status_line mj mn code reason) = Some ((mj, mn), code, reason)"
  using assms version_text_chars(1) [OF assms(2,3)] status_text_digits [OF assms(1)]
  by (simp add: parse_status_line_def status_line_def partition_str_append parse_version_text)


lemma recognize_trailing: "recognize m n v = Inr m' \<Longrightarrow> trailing m' = trailing m"
  by (auto simp: recognize_def Let_def split: if_splits option.splits)

lemma length_render_headers_Cons:
  "length (render_headers (h # hs))
   = Suc (Suc (Suc (length (fst h) + length (snd h) + length (render_headers hs))))"
  by (simp add: render_headers_def header_line_def)

text \<open>A list of well-formed header lines that the parser accepts.\<close>

lemma feed_loop_headers:
  assumes "accepts p E" and "\<not> paused p" and "state p = HeaderField" and "buffer p = []"
    and "field_name p = []" and "\<not> trailing (ctx p)"
    and "\<forall>h \<in> set hs. wf_header (max_token p) h"
    and "recognize_all (ctx p) hs = Inr m"
    and "\<forall>h \<in> set hs. header_event h \<in> E"
  shows "feed_loop p (render_headers hs @ rest)
         = prepend (map header_event hs) (length (render_headers hs)) (feed_loop (p\<lparr>ctx := m\<rparr>) rest)"
  using assms
proof (induction hs arbitrary: p)
  case Nil
  then have "p\<lparr>ctx := m\<rparr> = p" by simp
  then show ?case by (simp add: render_headers_def)
next
  case (Cons h hs)
  obtain m1 where m1: "recognize (ctx p) (fst h) (trim (snd h)) = Inr m1"
    and ra: "recognize_all m1 hs = Inr m"
    using Cons.prems(8) by (auto split: sum.splits)
  have nt: "\<not> trailing m1" using recognize_trailing [OF m1] Cons.prems(6) by simp
  let ?q = "p\<lparr>state := (if trailing m1 then Trailer else HeaderField), buffer := [],
              field_name := [], ctx := m1\<rparr>"
  have q: "?q = p\<lparr>ctx := m1\<rparr>" using nt Cons.prems(3,4,5) by simp
  have w: "wf_header (max_token p) h" using Cons.prems(7) by simp
  have ev: "OnHeader (fst h) (trim (snd h)) \<in> E"
    using Cons.prems(9) by (simp add: header_event_def)
  have 1: "feed_loop p (fst h @ CHR '':'' # snd h @ CR # LF # render_headers hs @ rest)
           = prepend [OnHeader (fst h) (trim (snd h))] (Suc (Suc (Suc (length (fst h) + length (snd h)))))
               (feed_loop ?q (render_headers hs @ rest))"
    using Cons.prems(1,2,3,4) w m1 ev
    by (intro feed_loop_header_line) (simp_all add: wf_header_def)
  have 2: "feed_loop (p\<lparr>ctx := m1\<rparr>) (render_headers hs @ rest)
           = prepend (map header_event hs) (length (render_headers hs))
               (feed_loop (p\<lparr>ctx := m1\<rparr>\<lparr>ctx := m\<rparr>) rest)"
    using Cons.prems nt ra by (intro Cons.IH) (simp_all add: accepts_def)
  have 3: "render_headers (h # hs) @ rest
           = fst h @ CHR '':'' # snd h @ CR # LF # render_headers hs @ rest"
    by (simp add: render_headers_def header_line_def)
  show ?case
    unfolding 3 1 q 2 by (simp add: header_event_def [of h] length_render_headers_Cons)
qed

text \<open>A list of well-formed header lines with one that the parser rejects: the parser ends in
  \<open>Error\<close> inside the headers, after callbacks for the headers before it only.\<close>

lemma feed_loop_headers_error:
  assumes "accepts p E" and "\<not> paused p" and "state p = HeaderField" and "buffer p = []"
    and "field_name p = []" and "\<not> trailing (ctx p)"
    and "\<forall>h \<in> set hs. wf_header (max_token p) h"
    and "recognize_all (ctx p) hs = Inl e"
    and "\<forall>h \<in> set hs. header_event h \<in> E"
  shows "\<exists>q evs n. feed_loop p (render_headers hs @ rest) = (q, evs, n)
           \<and> state q = Error \<and> failure q = Some e \<and> (\<forall>ev \<in> set evs. \<not> is_body ev)
           \<and> n < length (render_headers hs)"
  using assms
proof (induction hs arbitrary: p)
  case Nil
  then show ?case by simp
next
  case (Cons h hs)
  have w: "wf_header (max_token p) h" using Cons.prems(7) by simp
  have ev: "OnHeader (fst h) (trim (snd h)) \<in> E"
    using Cons.prems(9) by (simp add: header_event_def)
  have 3: "render_headers (h # hs) @ rest
           = fst h @ CHR '':'' # snd h @ CR # LF # render_headers hs @ rest"
    by (simp add: render_headers_def header_line_def)
  show ?case
  proof (cases "recognize (ctx p) (fst h) (trim (snd h))")
    case (Inl e')
    with Cons.prems(8) have e: "e' = e" by simp
    have "feed_loop p (fst h @ CHR '':'' # snd h @ CR # LF # render_headers hs @ rest)
           = (fail (p\<lparr>state := HeaderValue, field_name := fst h, buffer := snd h @ [CR]\<rparr>) e, [],
              Suc (Suc (length (fst h) + length (snd h))))"
      using Cons.prems(1,2,3,4) w Inl e
      by (intro feed_loop_header_line_error) (simp_all add: wf_header_def)
    then show ?thesis
      unfolding 3 by (simp add: fail_def length_render_headers_Cons)
  next
    case (Inr m1)
    with Cons.prems(8) have ra: "recognize_all m1 hs = Inl e" by simp
    have nt: "\<not> trailing m1" using recognize_trailing [OF Inr] Cons.prems(6) by simp
    let ?q = "p\<lparr>state := (if trailing m1 then Trailer else HeaderField), buffer := [],
                field_name := [], ctx := m1\<rparr>"
    have q: "?q = p\<lparr>ctx := m1\<rparr>" using nt Cons.prems(3,4,5) by simp
    have 1: "feed_loop p (fst h @ CHR '':'' # snd h @ CR # LF # render_headers hs @ rest)
             = prepend [OnHeader (fst h) (trim (snd h))] (Suc (Suc (Suc (length (fst h) + length (snd h)))))
                 (feed_loop ?q (render_headers hs @ rest))"
      using Cons.prems(1,2,3,4) w Inr ev
      by (intro feed_loop_header_line) (simp_all add: wf_header_def)
    have "\<exists>q evs n. feed_loop (p\<lparr>ctx := m1\<rparr>) (render_headers hs @ rest) = (q, evs, n)
           \<and> state q = Error \<and> failure q = Some e \<and> (\<forall>ev \<in> set evs. \<not> is_body ev)
           \<and> n < length (render_headers hs)"
      using Cons.prems nt ra by (intro Cons.IH) (simp_all add: accepts_def)
    then obtain q' evs n where
      f: "feed_loop (p\<lparr>ctx := m1\<rparr>) (render_headers hs @ rest) = (q', evs, n)"
      and r: "state q' = Error" "failure q' = Some e" "\<forall>ev \<in> set evs. \<not> is_body ev"
        "n < length (render_headers hs)"
      by blast
    show ?thesis
      unfolding 3 1 q f using r by (simp add: prepend_def length_render_headers_Cons)
  qed
qed

text \<open>The head of a request: the request line and the header lines, up to the blank line.\<close>

lemma feed_loop_request_line:
  assumes "accepts p E" and "\<not> paused p" and "state p = StartLine" and "buffer p = []"
    and "kind p = Request" and "ctx p = clear_context"
    and "wf_target t" and "mj < 10" and "mn < 10"
    and "length (request_line m t mj mn) < max_token p"
    and "{OnMessageBegin, OnMethod m, OnUrl t} \<subseteq> E"
  shows "feed_loop p (request_line m t mj mn @ CR # LF # rest)
         = prepend [OnMessageBegin, OnMethod m, OnUrl t] (length (request_line m t mj mn) + 2)
             (feed_loop (p\<lparr>state := HeaderField, ctx := request_context m mj mn\<rparr>) rest)"
proof -
  have c: "CR \<notin> set (request_line m t mj mn)" "LF \<notin> set (request_line m t mj mn)"
    using assms(7) version_text_chars [OF assms(8,9)] method_name_chars [of m]
    by (simp_all add: request_line_def wf_target_def CR_def LF_def SP_def)
  have f: "finish_start_line p (request_line m t mj mn)
           = Inr (p\<lparr>state := HeaderField, ctx := request_context m mj mn\<rparr>,
                  [OnMessageBegin, OnMethod m, OnUrl t])"
    using assms(4,5,6) parse_request_line_rendered [OF assms(7,8,9)]
    by (simp add: finish_start_line_def request_context_def)
  show ?thesis
    using assms(11) by (intro feed_loop_start_line [OF assms(1-4) c assms(10) f]) simp
qed

lemma feed_loop_status_line:
  assumes "accepts p E" and "\<not> paused p" and "state p = StartLine" and "buffer p = []"
    and "kind p = Response" and "ctx p = clear_context"
    and "code < 1000" and "mj < 10" and "mn < 10"
    and "CR \<notin> set reason" and "LF \<notin> set reason"
    and "length (status_line mj mn code reason) < max_token p"
    and "{OnMessageBegin, OnStatus code reason} \<subseteq> E"
  shows "feed_loop p (status_line mj mn code reason @ CR # LF # rest)
         = prepend [OnMessageBegin, OnStatus code reason] (length (status_line mj mn code reason) + 2)
             (feed_loop (p\<lparr>state := HeaderField, ctx := response_context mj mn code\<rparr>) rest)"
proof -
  have c: "CR \<notin> set (status_line mj mn code reason)" "LF \<notin> set (status_line mj mn code reason)"
    using assms(10,11) version_text_chars [OF assms(8,9)] status_text_digits [OF assms(7)]
    by (simp_all add: status_line_def CR_def LF_def SP_def)
  have f: "finish_start_line p (status_line mj mn code reason)
           = Inr (p\<lparr>state := HeaderField, ctx := response_context mj mn code\<rparr>,
                  [OnMessageBegin, OnStatus code reason])"
    using assms(4,5,6) parse_status_line_rendered [OF assms(7,8,9)]
    by (simp add: finish_start_line_def response_context_def)
  show ?thesis
    using assms(13) by (intro feed_loop_start_line [OF assms(1-4) c assms(12) f]) simp
qed


section \<open>The message parser: what the consumed count means\<close>

lemma body_bytes_append [simp]: "body_bytes (xs @ ys) = body_bytes xs + body_bytes ys"
  by (induction xs rule: body_bytes.induct) simp_all

lemma step_no_body:
  assumes "step p c = Inr (p', evs)"
  shows "body_bytes evs = 0"
  using assms
  by (auto simp: step_defs Let_def split: parser_state.splits if_splits parser_kind.splits
      option.splits sum.splits prod.splits)

lemma advance_body_bytes:
  assumes "advance p bs = Inr (p', evs, n)"
  shows "body_bytes evs \<le> n"
proof (cases "state p = BodyContentLength \<or> state p = ChunkData \<or> state p = BodyIdentity")
  case True
  with assms show ?thesis by (auto simp: advance_def Let_def)
next
  case False
  with assms obtain q where "step p (hd bs) = Inr (q, evs)"
    by (auto simp: advance_def split: parser_state.splits sum.splits)
  with step_no_body show ?thesis by simp
qed

lemma deliver_body_bytes: "body_bytes (fst (deliver s evs)) \<le> body_bytes evs"
proof (induction evs)
  case Nil
  show ?case by simp
next
  case (Cons e es)
  obtain d r where d: "deliver s es = (d, r)" by (cases "deliver s es")
  with Cons have "body_bytes d \<le> body_bytes es" by simp
  then have "body_bytes (e # d) \<le> body_bytes (e # es)" "body_bytes [e] \<le> body_bytes (e # es)"
    by (cases e; simp)+
  with d show ?case by (cases "s e") simp_all
qed

lemma commit_body_bytes:
  assumes "commit p (p', evs) = (q, d)"
  shows "body_bytes d \<le> body_bytes evs"
proof -
  from assms have "d = fst (deliver (sink p) evs)"
    by (auto simp: commit_def split: prod.splits reply.splits)
  with deliver_body_bytes show ?thesis by simp
qed

lemma resolve_no_body:
  assumes "resolve p = (p1, ev1)"
  shows "body_bytes ev1 = 0"
proof -
  have a: "body_bytes (snd (after_headers p)) = 0" by (simp add: after_headers_def)
  have "body_bytes d = 0" if "commit p (p', evs) = (q, d)" "body_bytes evs = 0" for p' evs q d
    using commit_body_bytes [OF that(1)] that(2) by simp
  from this [of "fst (after_headers p)" "snd (after_headers p)"]
    this [of "p\<lparr>state := MessageComplete\<rparr>" "[OnMessageComplete]"] a assms
  show ?thesis
    by (auto simp: resolve_def split: if_splits parser_state.splits)
qed

text \<open>Every body byte that a callback has been handed is counted.\<close>

lemma feed_loop_body_bytes: "feed_loop p bs = (p', evs, n) \<Longrightarrow> body_bytes evs \<le> n"
proof (induction p bs arbitrary: p' evs n rule: feed_loop_induct)
  case (stop p bs p1 ev1)
  with resolve_no_body [OF stop(1)] show ?case by (simp add: feed_loop_stop)
next
  case (error p bs p1 ev1 e)
  with resolve_no_body [OF error(1)] show ?case by (simp add: feed_loop_error)
next
  case (go p bs p1 ev1 p2 evs' m p3 ev2)
  obtain p4 ev3 k where f: "feed_loop p3 (drop m bs) = (p4, ev3, k)"
    by (cases "feed_loop p3 (drop m bs)")
  from feed_loop_go [OF go(1-5) f] go.prems
  have r: "evs = ev1 @ ev2 @ ev3" "n = m + k" by simp_all
  from commit_body_bytes [OF go(5)] advance_body_bytes [OF go(4)] have "body_bytes ev2 \<le> m"
    by simp
  with resolve_no_body [OF go(1)] go.IH [OF f] r show ?case by simp
qed

lemma deliver_abort:
  "deliver s evs = (d, Abort) \<Longrightarrow> d \<noteq> [] \<and> s (last d) = Abort"
proof (induction evs arbitrary: d)
  case Nil
  then show ?case by simp
next
  case (Cons e es)
  show ?case
  proof (cases "s e")
    case Abort
    with Cons.prems show ?thesis by auto
  next
    case Continue
    with Cons.prems obtain d' where "deliver s es = (d', Abort)" "d = e # d'"
      by (auto split: prod.splits)
    with Cons.IH [of d'] show ?thesis by simp
  next
    case Pause
    with Cons.prems obtain d' where "deliver s es = (d', Abort)" "d = e # d'"
      by (auto split: prod.splits if_splits)
    with Cons.IH [of d'] show ?thesis by simp
  qed
qed

lemma commit_abort:
  assumes "commit p (p', evs) = (q, d)" and "state p' \<noteq> Error" and "state q = Error"
  shows "d \<noteq> [] \<and> sink p (last d) = Abort"
proof -
  from assms have "deliver (sink p) evs = (d, Abort)"
    by (auto simp: commit_def split: prod.splits reply.splits)
  then show ?thesis by (rule deliver_abort)
qed

lemma commit_sink: "commit p (p', evs) = (q, d) \<Longrightarrow> sink q = sink p'"
  using commit_cases [of p p' evs q d] by (auto simp: fail_def)

lemma resolve_abort:
  assumes "resolve p = (p1, ev1)" and "state p \<noteq> Error" and "state p1 = Error"
  shows "ev1 \<noteq> [] \<and> sink p (last ev1) = Abort"
proof -
  have a: "state (fst (after_headers p)) \<noteq> Error" by (simp add: after_headers_def)
  from commit_abort [of p "fst (after_headers p)" "snd (after_headers p)" p1 ev1]
    commit_abort [of p "p\<lparr>state := MessageComplete\<rparr>" "[OnMessageComplete]" p1 ev1] a assms
  show ?thesis
    by (auto simp: resolve_def split: if_splits parser_state.splits)
qed

lemma resolve_sink: "resolve p = (p1, ev1) \<Longrightarrow> sink p1 = sink p"
  using commit_sink [of p "fst (after_headers p)" "snd (after_headers p)" p1 ev1]
    commit_sink [of p "p\<lparr>state := MessageComplete\<rparr>" "[OnMessageComplete]" p1 ev1]
  by (auto simp: resolve_def after_headers_def split: if_splits parser_state.splits)

text \<open>When the parser ends in \<open>Error\<close> because a callback aborted, that callback is the last
  one that was invoked.\<close>

lemma feed_loop_aborted:
  assumes "feed_loop p bs = (p', evs, n)" and "state p \<noteq> Error" and "state p' = Error"
    and "failure p' = Some CallbackAborted"
  shows "evs \<noteq> [] \<and> sink p (last evs) = Abort"
  using assms
proof (induction p bs arbitrary: p' evs n rule: feed_loop_induct)
  case (stop p bs p1 ev1)
  from feed_loop_stop [OF stop(1,2)] stop.prems(1) have "p' = p1" "evs = ev1" by simp_all
  with resolve_abort [OF stop(1) stop.prems(2)] stop.prems(3) show ?case by simp
next
  case (error p bs p1 ev1 e)
  from feed_loop_error [OF error(1-4)] error.prems(1) have "p' = fail p1 e" by simp
  with error.prems(4) advance_error [OF error(4)] show ?case by (simp add: fail_def)
next
  case (go p bs p1 ev1 p2 evs' m p3 ev2)
  obtain p4 ev3 k where f: "feed_loop p3 (drop m bs) = (p4, ev3, k)"
    by (cases "feed_loop p3 (drop m bs)")
  from feed_loop_go [OF go(1-5) f] go.prems(1)
  have r: "p' = p4" "evs = ev1 @ ev2 @ ev3" by simp_all
  have s1: "sink p1 = sink p" by (rule resolve_sink [OF go(1)])
  have "state p1 \<noteq> Error" using go(2) by (simp add: stopped_def)
  with advance_frame [OF go(4)] have p2: "state p2 \<noteq> Error" "sink p2 = sink p1" by simp_all
  show ?case
  proof (cases "state p3 = Error")
    case True
    then have "stopped p3" by (simp add: stopped_def)
    with f have "ev3 = []" by (simp add: feed_loop_stopped)
    with commit_abort [OF go(5) p2(1) True] r s1 show ?thesis by simp
  next
    case False
    from commit_sink [OF go(5)] p2 s1 have "sink p3 = sink p" by simp
    with go.IH [OF f False] go.prems(3,4) r show ?thesis by simp
  qed
qed

text \<open>A byte that the step rejects is a byte of the input.\<close>

lemma feed_loop_fault_position:
  assumes "feed_loop p bs = (p', evs, n)" and "state p \<noteq> Error" and "state p' = Error"
    and "failure p' \<noteq> Some CallbackAborted"
  shows "n < length bs"
  using assms
proof (induction p bs arbitrary: p' evs n rule: feed_loop_induct)
  case (stop p bs p1 ev1)
  from feed_loop_stop [OF stop(1,2)] stop.prems(1) have "p' = p1" by simp
  with resolve_error [OF stop(1) stop.prems(2)] stop.prems(3,4) show ?case by simp
next
  case (error p bs p1 ev1 e)
  from feed_loop_error [OF error(1-4)] error.prems(1) error(3) show ?case by simp
next
  case (go p bs p1 ev1 p2 evs' m p3 ev2)
  obtain p4 ev3 k where f: "feed_loop p3 (drop m bs) = (p4, ev3, k)"
    by (cases "feed_loop p3 (drop m bs)")
  from feed_loop_go [OF go(1-5) f] go.prems(1) have r: "p' = p4" "n = m + k" by simp_all
  have "state p3 \<noteq> Error"
  proof
    assume e: "state p3 = Error"
    then have "stopped p3" by (simp add: stopped_def)
    with f have "p4 = p3" by (simp add: feed_loop_stopped)
    moreover have "state p1 \<noteq> Error" using go(2) by (simp add: stopped_def)
    with advance_frame [OF go(4)] have "state p2 \<noteq> Error" by simp
    with commit_cases [OF go(5)] e have "failure p3 = Some CallbackAborted"
      by (auto simp: fail_def)
    ultimately show False using go.prems(4) r by simp
  qed
  from go.IH [OF f this] go.prems(3,4) r go(7) show ?case by simp
qed


lemma parse_request_line_example:
  "parse_request_line ''GET / HTTP/1.1'' = Some (GET, ''/'', 1, 1)"
  by (simp add: parse_request_line_def SP_def parse_method_def parse_version_def is_digit_def
      digit_value_def)

lemma feed_loop_consumed: "feed_loop p bs = (p', evs, n) \<Longrightarrow> n \<le> length bs"
  using feed_loop_consumed_le [of p bs] by simp

lemma feed_loop_reason:
  assumes "feed_loop p bs = (p', evs, n)" and "state p \<noteq> Error" and "state p' = Error"
  shows "\<exists>e. failure p' = Some e \<and> e \<noteq> Paused"
proof -
  from assms(2) have "error_has_reason p" by (simp add: error_has_reason_def)
  from feed_loop_error_has_reason [OF this, of bs] assms(1,3) show ?thesis
    by (simp add: error_has_reason_def)
qed

lemma feed_refused:
  "state p = Error \<or> paused p \<Longrightarrow>
   feed p bs = (p, [], 0, if state p = Error then failure p else Some Paused)"
  by (auto simp: feed_def)

lemma feed_accepted:
  "state p \<noteq> Error \<Longrightarrow> \<not> paused p \<Longrightarrow> feed_loop p bs = (p', evs, n) \<Longrightarrow>
   feed p bs = (p', evs, n, if state p' = Error then failure p' else None)"
  by (simp add: feed_def)

text \<open>
  Claim C3. For every parser and every input, with callbacks that may abort or pause:
  the count is at most the length of the input, and every body byte that a callback was
  handed is counted. When the count is less than the length of the input, the parser has
  stopped (an error, a pause or an upgrade), and the bytes after position \<open>n\<close> have no part
  in the result. When \<open>feed\<close> does not report a byte that the parser rejects (no error, an
  aborted callback, a refused call), the first \<open>n\<close> bytes fed alone give the same parser,
  callbacks, count and result, and no byte from position \<open>n\<close> on has a part in it. When
  \<open>feed\<close> reports a byte that the parser rejects, the first \<open>n\<close> bytes alone are read without
  an error and with the same callbacks, and the byte at position \<open>n\<close> is the one that the step
  rejects with this error. When a callback aborted, it is the last callback invoked.
\<close>

theorem feed_consumed_count:
  assumes "feed p bs = (p', evs, n, r)"
  shows "n \<le> length bs
       \<and> body_bytes evs \<le> n
       \<and> (n < length bs \<longrightarrow>
            stopped p' \<and> (\<forall>cs. feed p (take (Suc n) bs @ cs) = (p', evs, n, r)))
       \<and> (\<not> parse_fault p r \<longrightarrow>
            feed p (take n bs) = (p', evs, n, r)
            \<and> (n < length bs \<longrightarrow> (\<forall>cs. feed p (take n bs @ cs) = (p', evs, n, r))))
       \<and> (parse_fault p r \<longrightarrow>
            n < length bs \<and>
            (\<exists>q e. r = Some e \<and> feed p (take n bs) = (q, evs, n, None)
                   \<and> step q (bs ! n) = Inl e \<and> p' = fail q e))
       \<and> (r = Some CallbackAborted \<and> state p \<noteq> Error \<longrightarrow>
            evs \<noteq> [] \<and> sink p (last evs) = Abort)"
proof (cases "state p = Error \<or> paused p")
  case True
  define r0 where "r0 = (if state p = Error then failure p else Some Paused)"
  have fr: "feed p xs = (p, [], 0, r0)" for xs
    using feed_refused [OF True] by (simp add: r0_def)
  from fr [of bs] assms have r: "p' = p" "evs = []" "n = 0" "r = r0" by simp_all
  have "stopped p" using True by (auto simp: stopped_def)
  moreover have "\<not> parse_fault p r" using True by (auto simp: parse_fault_def)
  moreover have "r \<noteq> Some CallbackAborted \<or> state p = Error"
    using True by (auto simp: r r0_def)
  ultimately show ?thesis
    unfolding r using fr by simp
next
  case False
  then have np: "state p \<noteq> Error" "\<not> paused p" by simp_all
  from assms np have f: "feed_loop p bs = (p', evs, n)"
    and r: "r = (if state p' = Error then failure p' else None)"
    by (auto simp: feed_def split: prod.splits)
  note acc = feed_accepted [OF np]
  have 1: "n \<le> length bs" using f by (rule feed_loop_consumed)
  have 2: "body_bytes evs \<le> n" using f by (rule feed_loop_body_bytes)
  have 3: "stopped p' \<and> (\<forall>cs. feed p (take (Suc n) bs @ cs) = (p', evs, n, r))"
    if lt: "n < length bs"
  proof -
    from feed_loop_all [OF f] lt have "stopped p'" by auto
    moreover have "feed p (take (Suc n) bs @ cs) = (p', evs, n, r)" for cs
      using acc [OF feed_loop_tail [OF f lt, of cs]] r by simp
    ultimately show ?thesis by simp
  qed
  have reason: "\<exists>e. failure p' = Some e \<and> e \<noteq> Paused" if "state p' = Error"
    using feed_loop_reason [OF f np(1) that] .
  have 4: "feed p (take n bs) = (p', evs, n, r)
            \<and> (n < length bs \<longrightarrow> (\<forall>cs. feed p (take n bs @ cs) = (p', evs, n, r)))"
    if nf: "\<not> parse_fault p r"
  proof -
    have c: "state p' = Error \<longrightarrow> failure p' = Some CallbackAborted \<or> state p = Error"
      using nf np r reason by (auto simp: parse_fault_def)
    have "feed_loop p (take n bs) = (p', evs, n)"
      using feed_loop_prefix [OF f] c np(1) by (auto simp: fail_def)
    from acc [OF this] r have a: "feed p (take n bs) = (p', evs, n, r)" by simp
    have "feed p (take n bs @ cs) = (p', evs, n, r)" if "n < length bs" for cs
      using acc [OF feed_loop_tail_stopped [OF f that c, of cs]] r by simp
    with a show ?thesis by simp
  qed
  have 5: "n < length bs \<and>
            (\<exists>q e. r = Some e \<and> feed p (take n bs) = (q, evs, n, None)
                   \<and> step q (bs ! n) = Inl e \<and> p' = fail q e)"
    if pf: "parse_fault p r"
  proof -
    from pf r have s: "state p' = Error" "failure p' \<noteq> Some CallbackAborted"
      by (auto simp: parse_fault_def split: if_splits)
    from feed_loop_fault_position [OF f np(1) s] have lt: "n < length bs" .
    have "feed_loop p (take n bs) \<noteq> (p', evs, n)"
    proof
      assume "feed_loop p (take n bs) = (p', evs, n)"
      from feed_loop_fault_position [OF this np(1) s] show False by simp
    qed
    with feed_loop_prefix [OF f]
    obtain q e where q: "feed_loop p (take n bs) = (q, evs, n)" "\<not> stopped q"
      "step q (bs ! n) = Inl e" "p' = fail q e"
      by blast
    from q(2) have "state q \<noteq> Error" by (simp add: stopped_def)
    with acc [OF q(1)] have "feed p (take n bs) = (q, evs, n, None)" by simp
    moreover from q(4) r have "r = Some e" by (simp add: fail_def)
    ultimately show ?thesis using lt q by blast
  qed
  have 6: "evs \<noteq> [] \<and> sink p (last evs) = Abort" if "r = Some CallbackAborted"
  proof -
    from that r have "state p' = Error" "failure p' = Some CallbackAborted"
      by (auto split: if_splits)
    from feed_loop_aborted [OF f np(1) this] show ?thesis .
  qed
  from 1 2 3 4 5 6 show ?thesis by blast
qed


lemma feed_folded_line:
  "feed request_parser folded_request
   = (fail after_request_line InvalidHeaderField,
      [OnMessageBegin, OnMethod GET, OnUrl ''/''], 16, Some InvalidHeaderField)"
proof -
  have a: "accepts request_parser UNIV" "\<not> paused request_parser" "state request_parser = StartLine"
    "buffer request_parser = []" "length ''GET / HTTP/1.1'' < max_token request_parser"
    by (simp_all add: request_parser_def new_parser_def accepts_def quiet_def)
  have b: "CR \<notin> set ''GET / HTTP/1.1''" "LF \<notin> set ''GET / HTTP/1.1''"
    by (simp_all add: CR_def LF_def)
  have c: "finish_start_line request_parser ''GET / HTTP/1.1''
           = Inr (after_request_line, [OnMessageBegin, OnMethod GET, OnUrl ''/''])"
    by (simp add: finish_start_line_def parse_request_line_example after_request_line_def
        default_keep_alive_def request_parser_def new_parser_def)
  have d: "\<not> stopped after_request_line" "byte_state (state after_request_line)"
    by (simp_all add: after_request_line_def request_parser_def new_parser_def stopped_def
        byte_state_def)
  have e: "step after_request_line (CHR '' '') = Inl InvalidHeaderField"
    by (simp add: step_def step_header_field_def after_request_line_def request_parser_def
        new_parser_def CR_def is_tchar_def is_alpha_def is_digit_def)
  have 1: "feed_loop request_parser (''GET / HTTP/1.1'' @ CR # LF # '' x'')
        = prepend [OnMessageBegin, OnMethod GET, OnUrl ''/''] (length ''GET / HTTP/1.1'' + 2)
            (feed_loop after_request_line '' x'')"
    by (rule feed_loop_start_line [OF a(1-4) b a(5) c]) simp
  have 2: "feed_loop after_request_line (CHR '' '' # ''x'')
        = (fail after_request_line InvalidHeaderField, [], 0)"
    by (rule feed_loop_byte_error [OF d e])
  have "feed_loop request_parser (''GET / HTTP/1.1'' @ CR # LF # '' x'')
        = (fail after_request_line InvalidHeaderField, [OnMessageBegin, OnMethod GET, OnUrl ''/''], 16)"
    using 1 2 by (simp add: prepend_def)
  then show ?thesis
    using a by (simp add: feed_def fail_def folded_request_def)
qed

lemma feed_aborted_body:
  "\<exists>q. feed guarded_parser post_request
   = (q, [OnMessageBegin, OnMethod POST, OnUrl ''/'', OnHeader ''Content-Length'' ''5'',
          OnHeadersComplete, OnBody ''hello''], 43, Some CallbackAborted)"
proof -
  let ?E = "{e. \<not> is_body e}"
  let ?p1 = "guarded_parser\<lparr>state := HeaderField, ctx := request_context POST 1 1\<rparr>"
  let ?m = "(request_context POST 1 1)\<lparr>content_length_present := True, remaining := 5\<rparr>"
  let ?p2 = "?p1\<lparr>state := HeaderField, buffer := [], field_name := [], ctx := ?m\<rparr>"
  let ?p3 = "?p2\<lparr>state := HeadersComplete\<rparr>\<lparr>state := BodyContentLength\<rparr>"
  have a: "accepts guarded_parser ?E" "\<not> paused guarded_parser" "state guarded_parser = StartLine"
    "buffer guarded_parser = []" "kind guarded_parser = Request" "ctx guarded_parser = clear_context"
    by (simp_all add: guarded_parser_def new_parser_def accepts_def abort_on_body_def)
  have rl: "request_line POST ''/'' 1 1 = ''POST / HTTP/1.1''"
    by (simp add: request_line_def version_text_def SP_def digit_char_def)
  have 1: "feed_loop guarded_parser (request_line POST ''/'' 1 1 @ CR # LF # rest)
           = prepend [OnMessageBegin, OnMethod POST, OnUrl ''/''] (length (request_line POST ''/'' 1 1) + 2)
               (feed_loop ?p1 rest)" for rest
  proof (rule feed_loop_request_line [OF a])
    show "wf_target ''/''" by (simp add: wf_target_def SP_def CR_def LF_def)
    show "length (request_line POST ''/'' 1 1) < max_token guarded_parser"
      unfolding rl by (simp add: guarded_parser_def new_parser_def)
    show "{OnMessageBegin, OnMethod POST, OnUrl ''/''} \<subseteq> {e. \<not> is_body e}" by simp
  qed simp_all
  have ap1: "accepts ?p1 ?E" using a(1) by (simp add: accepts_def)
  have rc: "recognize (ctx ?p1) ''Content-Length'' (trim '' 5'') = Inr ?m"
    by (simp add: recognize_def lower_def lower_char_def trim_def strip_str_def SP_def HT_def
        parse_nat_def is_digit_def decimal_value_def digit_value_def request_context_def
        clear_context_def Let_def)
  have 2: "feed_loop ?p1 (''Content-Length'' @ CHR '':'' # '' 5'' @ CR # LF # rest)
           = prepend [OnHeader ''Content-Length'' (trim '' 5'')]
               (Suc (Suc (Suc (length ''Content-Length'' + length '' 5''))))
               (feed_loop (?p1\<lparr>state := (if trailing ?m then Trailer else HeaderField), buffer := [],
                            field_name := [], ctx := ?m\<rparr>) rest)" for rest
    by (rule feed_loop_header_line [OF ap1 _ _ _ _ _ _ _ _ _ rc])
       (simp_all add: guarded_parser_def new_parser_def CR_def LF_def is_tchar_def is_alpha_def
          is_digit_def)
  have tr: "trim '' 5'' = ''5''" by (simp add: trim_def strip_str_def SP_def HT_def)
  have nt: "\<not> trailing ?m" by (simp add: request_context_def clear_context_def)
  have ap2: "accepts ?p2 ?E" using a(1) by (simp add: accepts_def)
  have ah: "after_headers (?p2\<lparr>state := HeadersComplete\<rparr>) = (?p3, [])"
    by (simp add: after_headers_def request_context_def clear_context_def)
  have 3: "feed_loop ?p2 (CR # LF # rest) = prepend (OnHeadersComplete # []) (Suc (Suc 0)) (feed_loop ?p3 rest)"
    for rest
    by (rule feed_loop_blank_line [OF ap2 _ _ _ _ ah])
       (simp_all add: guarded_parser_def new_parser_def request_context_def clear_context_def)
  have 4: "feed_loop ?p3 (''hello'' @ ''XY'')
           = (fail (?p3\<lparr>ctx := (ctx ?p3)\<lparr>remaining := 0\<rparr>\<rparr>) CallbackAborted, [OnBody ''hello''],
              length ''hello'')"
    by (rule feed_loop_body_abort)
       (simp_all add: guarded_parser_def new_parser_def abort_on_body_def)
  have p2: "?p1\<lparr>state := (if trailing ?m then Trailer else HeaderField), buffer := [],
                field_name := [], ctx := ?m\<rparr> = ?p2"
    using nt by simp
  have len: "length (request_line POST ''/'' (Suc 0) (Suc 0)) = 15"
    using rl by simp
  have s: "post_request = request_line POST ''/'' 1 1 @ CR # LF #
          ''Content-Length'' @ CHR '':'' # '' 5'' @ CR # LF # CR # LF # ''hello'' @ ''XY''"
    unfolding post_request_def rl by simp
  have "feed_loop guarded_parser post_request
      = (fail (?p3\<lparr>ctx := (ctx ?p3)\<lparr>remaining := 0\<rparr>\<rparr>) CallbackAborted,
         [OnMessageBegin, OnMethod POST, OnUrl ''/'', OnHeader ''Content-Length'' ''5'',
          OnHeadersComplete, OnBody ''hello''], 43)"
    unfolding s 1 2 p2 3 4 tr by (simp add: prepend_def len)
  then show ?thesis
    using a by (simp add: feed_def fail_def)
qed


text \<open>Two runs. A request line followed by a folded header line: the space at position 16
  is the byte at fault, and the 16 bytes before it are read without an error. A request whose
  \<open>on_body\<close> callback aborts: the five body bytes that the callback was handed are counted,
  the count is 43 of 45, and the two bytes after them have no part in the result.\<close>

theorem feed_consumed_count_witness:
  "snd (feed request_parser folded_request)
     = ([OnMessageBegin, OnMethod GET, OnUrl ''/''], 16, Some InvalidHeaderField)
   \<and> parse_fault request_parser (Some InvalidHeaderField)
   \<and> (\<exists>q. feed request_parser (take 16 folded_request)
             = (q, [OnMessageBegin, OnMethod GET, OnUrl ''/''], 16, None)
          \<and> step q (folded_request ! 16) = Inl InvalidHeaderField)
   \<and> snd (feed guarded_parser post_request)
     = ([OnMessageBegin, OnMethod POST, OnUrl ''/'', OnHeader ''Content-Length'' ''5'',
         OnHeadersComplete, OnBody ''hello''], 43, Some CallbackAborted)
   \<and> 43 < length post_request
   \<and> \<not> parse_fault guarded_parser (Some CallbackAborted)
   \<and> stopped (fst (feed guarded_parser post_request))
   \<and> feed guarded_parser (take 43 post_request) = feed guarded_parser post_request
   \<and> (\<forall>cs. feed guarded_parser (take 43 post_request @ cs) = feed guarded_parser post_request)
   \<and> sink guarded_parser (OnBody ''hello'') = Abort"
proof -
  have s: "state request_parser \<noteq> Error" "\<not> paused request_parser"
    by (simp_all add: request_parser_def new_parser_def)
  then have pf: "parse_fault request_parser (Some InvalidHeaderField)"
    by (simp add: parse_fault_def)
  from feed_consumed_count [OF feed_folded_line] pf
  have a: "\<exists>q. feed request_parser (take 16 folded_request)
             = (q, [OnMessageBegin, OnMethod GET, OnUrl ''/''], 16, None)
          \<and> step q (folded_request ! 16) = Inl InvalidHeaderField"
    by auto
  obtain q where q: "feed guarded_parser post_request
      = (q, [OnMessageBegin, OnMethod POST, OnUrl ''/'', OnHeader ''Content-Length'' ''5'',
             OnHeadersComplete, OnBody ''hello''], 43, Some CallbackAborted)"
    using feed_aborted_body by blast
  have len: "43 < length post_request" by (simp add: post_request_def)
  have g: "state guarded_parser \<noteq> Error"
    by (simp add: guarded_parser_def new_parser_def)
  have npf: "\<not> parse_fault guarded_parser (Some CallbackAborted)"
    by (simp add: parse_fault_def)
  from feed_consumed_count [OF q] len npf g
  have b: "stopped q" "feed guarded_parser (take 43 post_request) = feed guarded_parser post_request"
    "\<forall>cs. feed guarded_parser (take 43 post_request @ cs) = feed guarded_parser post_request"
    "sink guarded_parser (OnBody ''hello'') = Abort"
    unfolding q by simp_all
  from feed_folded_line pf a q len npf b show ?thesis by simp
qed

end
